theory Spec2Isabelle
  imports Main
begin

unbundle bit_operations_syntax

section \<open>Strings, runes and the Unicode predicates of the Go library\<close>

text \<open>
  A Go string is modelled by the sequence of runes (code points) that \<^verbatim>\<open>range s\<close> and
  \<^verbatim>\<open>[]rune(s)\<close> yield. \<^verbatim>\<open>len(s)\<close> and \<^verbatim>\<open>strings.Builder.Len()\<close> count bytes of the UTF-8
  encoding, which is \<open>byteLen\<close> below. All patterns the program searches for
  (\<^verbatim>\<open>" "\<close>, \<^verbatim>\<open>"|"\<close>, \<^verbatim>\<open>"http://"\<close>, ...) are ASCII, so searching bytes and searching runes
  agree.

  The model covers the strings that are valid UTF-8. Every string the splitter handles is
  one: \<^verbatim>\<open>Stream\<close> decodes a chunk with \<^verbatim>\<open>range\<close> (an invalid byte is read as U+FFFD) and
  rebuilds its buffer with \<^verbatim>\<open>WriteRune\<close>, and the tokenizer converts through \<^verbatim>\<open>[]rune\<close>. A
  string with an invalid byte can only reach the exported functions of \<^verbatim>\<open>text_utils.go\<close>
  from a direct caller; there \<^verbatim>\<open>len\<close> counts that byte once, where \<open>byteLen\<close> counts the three
  bytes of U+FFFD, and the model does not apply.
\<close>

type_synonym rune = int
type_synonym gostring = "rune list"

definition str :: "string \<Rightarrow> gostring" where
  "str s = map of_char s"

text \<open>
  The range tables of package \<^verbatim>\<open>unicode\<close> beyond Latin-1 (and the case mapping beyond
  ASCII) are not part of this repository; they are parameters. Up to U+00FF the library
  answers from a fixed property table, which is written out.
\<close>

record unicode_tables =
  digitTable :: "rune \<Rightarrow> bool"
  upperTable :: "rune \<Rightarrow> bool"
  lowerTable :: "rune \<Rightarrow> bool"
  letterTable :: "rune \<Rightarrow> bool"
  lowerCaseMap :: "rune \<Rightarrow> rune"

definition isLatin1 :: "rune \<Rightarrow> bool" where
  "isLatin1 r = (0 \<le> r \<and> r \<le> 0xFF)"

definition IsSpace :: "rune \<Rightarrow> bool" where
  "IsSpace r =
     (if isLatin1 r
      then r = 9 \<or> r = 10 \<or> r = 11 \<or> r = 12 \<or> r = 13 \<or> r = 32 \<or> r = 0x85 \<or> r = 0xA0
      else r = 0x1680 \<or> (0x2000 \<le> r \<and> r \<le> 0x200A) \<or> r = 0x2028 \<or> r = 0x2029
           \<or> r = 0x202F \<or> r = 0x205F \<or> r = 0x3000)"

definition IsDigit :: "unicode_tables \<Rightarrow> rune \<Rightarrow> bool" where
  "IsDigit U r = (if isLatin1 r then 0x30 \<le> r \<and> r \<le> 0x39 else digitTable U r)"

definition IsUpper :: "unicode_tables \<Rightarrow> rune \<Rightarrow> bool" where
  "IsUpper U r =
     (if isLatin1 r
      then (0x41 \<le> r \<and> r \<le> 0x5A) \<or> (0xC0 \<le> r \<and> r \<le> 0xD6) \<or> (0xD8 \<le> r \<and> r \<le> 0xDE)
      else upperTable U r)"

definition IsLower :: "unicode_tables \<Rightarrow> rune \<Rightarrow> bool" where
  "IsLower U r =
     (if isLatin1 r
      then (0x61 \<le> r \<and> r \<le> 0x7A) \<or> r = 0xB5 \<or> (0xDF \<le> r \<and> r \<le> 0xF6)
           \<or> (0xF8 \<le> r \<and> r \<le> 0xFF)
      else lowerTable U r)"

definition IsLetter :: "unicode_tables \<Rightarrow> rune \<Rightarrow> bool" where
  "IsLetter U r =
     (if isLatin1 r
      then (0x41 \<le> r \<and> r \<le> 0x5A) \<or> (0x61 \<le> r \<and> r \<le> 0x7A) \<or> r = 0xAA \<or> r = 0xB5
           \<or> r = 0xBA \<or> (0xC0 \<le> r \<and> r \<le> 0xD6) \<or> (0xD8 \<le> r \<and> r \<le> 0xF6)
           \<or> (0xF8 \<le> r \<and> r \<le> 0xFF)
      else letterTable U r)"

definition toLowerRune :: "unicode_tables \<Rightarrow> rune \<Rightarrow> rune" where
  "toLowerRune U r =
     (if 0 \<le> r \<and> r \<le> 0x7F
      then (if 0x41 \<le> r \<and> r \<le> 0x5A then r + 32 else r)
      else lowerCaseMap U r)"

definition ToLower :: "unicode_tables \<Rightarrow> gostring \<Rightarrow> gostring" where
  "ToLower U s = map (toLowerRune U) s"

text \<open>Bytes of the UTF-8 encoding of one rune, as \<^verbatim>\<open>WriteRune\<close> writes it.\<close>

definition runeLen :: "rune \<Rightarrow> int" where
  "runeLen r =
     (if 0 \<le> r \<and> r \<le> 0x7F then 1
      else if 0 \<le> r \<and> r \<le> 0x7FF then 2
      else if r < 0 \<or> 0x10FFFF < r \<or> (0xD800 \<le> r \<and> r \<le> 0xDFFF) then 3
      else if r \<le> 0xFFFF then 3
      else 4)"

definition byteLen :: "gostring \<Rightarrow> int" where
  "byteLen s = sum_list (map runeLen s)"

definition TrimSpace :: "gostring \<Rightarrow> gostring" where
  "TrimSpace s = rev (dropWhile IsSpace (rev (dropWhile IsSpace s)))"

definition inCutset :: "rune \<Rightarrow> bool" where
  "inCutset r = (r = 32 \<or> r = 9 \<or> r = 10 \<or> r = 13)"

definition TrimLeft :: "gostring \<Rightarrow> gostring" where
  "TrimLeft s = dropWhile inCutset s"

definition HasPrefix :: "gostring \<Rightarrow> gostring \<Rightarrow> bool" where
  "HasPrefix s p = (take (length p) s = p)"

definition HasSuffix :: "gostring \<Rightarrow> gostring \<Rightarrow> bool" where
  "HasSuffix s p = (length p \<le> length s \<and> drop (length s - length p) s = p)"

definition Count :: "gostring \<Rightarrow> rune \<Rightarrow> int" where
  "Count s c = int (length (filter (\<lambda>r. r = c) s))"

text \<open>
  \<^verbatim>\<open>strings.Split(s, sep)\<close> for a separator of one ASCII character: \<open>cur\<close> is the piece
  being read.
\<close>

fun splitLoop :: "gostring \<Rightarrow> rune \<Rightarrow> gostring \<Rightarrow> gostring list" where
  "splitLoop [] sep cur = [cur]"
| "splitLoop (c # cs) sep cur =
     (if c = sep then cur # splitLoop cs sep [] else splitLoop cs sep (cur @ [c]))"

definition Split :: "gostring \<Rightarrow> rune \<Rightarrow> gostring list" where
  "Split s sep = splitLoop s sep []"

fun Join :: "gostring list \<Rightarrow> gostring \<Rightarrow> gostring" where
  "Join [] sep = []"
| "Join [w] sep = w"
| "Join (w # ws) sep = w @ sep @ Join ws sep"

section \<open>text\_utils.go\<close>

definition CleanupLinks :: int where "CleanupLinks = 1"
definition CleanupEmojis :: int where "CleanupEmojis = 2"
definition CleanupTable :: int where "CleanupTable = 4"
definition StripText :: int where "StripText = 8"
definition CleanupAll :: int where
  "CleanupAll = CleanupLinks OR CleanupEmojis OR CleanupTable OR StripText"

definition HasFlag :: "int \<Rightarrow> int \<Rightarrow> bool" where
  "HasFlag f flag = (f AND flag \<noteq> 0)"

definition stripHTTPURLs :: "gostring \<Rightarrow> gostring" where
  "stripHTTPURLs text =
     Join (filter (\<lambda>word. \<not> HasPrefix word (str ''http://'') \<and> \<not> HasPrefix word (str ''https://''))
             (Split text 32)) [32]"

fun normalizeLoop :: "gostring list \<Rightarrow> nat \<Rightarrow> gostring list \<Rightarrow> gostring list" where
  "normalizeLoop [] emptyLineCount result = result"
| "normalizeLoop (line # rest) emptyLineCount result =
     (if TrimSpace line = []
      then (if emptyLineCount + 1 \<le> 1
            then normalizeLoop rest (emptyLineCount + 1) (result @ [line])
            else normalizeLoop rest (emptyLineCount + 1) result)
      else normalizeLoop rest 0 (result @ [line]))"

definition normalizeNewlines :: "gostring \<Rightarrow> gostring" where
  "normalizeNewlines text = Join (normalizeLoop (Split text 10) 0 []) [10]"

definition isEmojiRune :: "rune \<Rightarrow> bool" where
  "isEmojiRune r =
     ((0x1F600 \<le> r \<and> r \<le> 0x1F64F) \<or> (0x1F300 \<le> r \<and> r \<le> 0x1F5FF)
      \<or> (0x1F680 \<le> r \<and> r \<le> 0x1F6FF) \<or> (0x1F1E6 \<le> r \<and> r \<le> 0x1F1FF)
      \<or> (0x2600 \<le> r \<and> r \<le> 0x26FF) \<or> (0x2700 \<le> r \<and> r \<le> 0x27BF)
      \<or> (0xFE00 \<le> r \<and> r \<le> 0xFE0F) \<or> (0x1F900 \<le> r \<and> r \<le> 0x1F9FF)
      \<or> (0x1F018 \<le> r \<and> r \<le> 0x1F270) \<or> r = 0x200D)"

definition stripEmojis :: "gostring \<Rightarrow> gostring" where
  "stripEmojis text = filter (\<lambda>r. \<not> isEmojiRune r) text"

definition isTableFiller :: "rune \<Rightarrow> bool" where
  "isTableFiller r = (r = 0x2D \<or> r = 0x3D \<or> r = 0x5F \<or> r = 0x2B \<or> r = 0x7C \<or> r = 32 \<or> r = 9)"

text \<open>
  \<^verbatim>\<open>float64(tableChars)/float64(lineLen) > 0.5\<close> is \<open>lineLen < 2 * tableChars\<close>
  for the positive lengths that reach it. \<open>lineLen\<close> is \<^verbatim>\<open>len(trimmed)\<close>, the byte length,
  for a line that is valid UTF-8 (see the remark on strings above).
\<close>

definition detectTableLine :: "gostring \<Rightarrow> bool" where
  "detectTableLine line =
     (let trimmed = TrimSpace line in
      if trimmed = [] then False
      else
        let pipeCount = Count trimmed 0x7C;
            tabCount = Count trimmed 9;
            plusCount = Count trimmed 0x2B;
            dashCount = Count trimmed 0x2D;
            equalsCount = Count trimmed 0x3D;
            lineLen = byteLen trimmed
        in
          if 2 \<le> pipeCount \<or> 2 \<le> tabCount then True
          else
            let tableChars = pipeCount + plusCount + dashCount + equalsCount in
              if 0 < lineLen \<and> lineLen < 2 * tableChars then True
              else if 3 < lineLen \<and> filter (\<lambda>r. \<not> isTableFiller r) trimmed = [] then True
              else if HasPrefix trimmed [0x7C] \<and> HasSuffix trimmed [0x7C] then True
              else False)"

fun stripTableLoop :: "gostring list \<Rightarrow> gostring list \<Rightarrow> gostring list" where
  "stripTableLoop [] cleanedLines = cleanedLines"
| "stripTableLoop (line # rest) cleanedLines =
     (if detectTableLine line
      then (if cleanedLines \<noteq> [] \<and> last cleanedLines \<noteq> []
            then stripTableLoop rest (cleanedLines @ [[]])
            else stripTableLoop rest cleanedLines)
      else stripTableLoop rest (cleanedLines @ [line]))"

definition stripTableStructures :: "gostring \<Rightarrow> gostring" where
  "stripTableStructures text =
     normalizeNewlines (Join (stripTableLoop (Split text 10) []) [10])"

definition CleanText :: "gostring \<Rightarrow> int \<Rightarrow> gostring" where
  "CleanText text flags =
     (let r1 = (if HasFlag flags CleanupTable then stripTableStructures text else text);
          r2 = (if HasFlag flags CleanupLinks then stripHTTPURLs r1 else r1);
          r3 = (if HasFlag flags CleanupEmojis then stripEmojis r2 else r2)
      in if HasFlag flags StripText then TrimSpace r3 else r3)"

section \<open>tokenizer.go\<close>

definition commonAbbreviations :: "gostring list" where
  "commonAbbreviations = map str
     [''Mr'', ''Mrs'', ''Ms'', ''Dr'', ''Prof'', ''Rev'', ''St'',
      ''Jr'', ''Sr'', ''Inc'', ''Ltd'', ''Corp'', ''Co'', ''Ave'', ''Blvd'',
      ''vs'', ''etc'', ''ie'', ''eg'', ''am'', ''pm'']"

text \<open>
  The scan \<^verbatim>\<open>for start >= 0 && unicode.IsLetter(runes[start]) { start-- }; start++\<close>,
  counted in \<open>k = start + 1\<close>, so that the index stays a natural number.
\<close>

fun letterRunStart :: "unicode_tables \<Rightarrow> rune list \<Rightarrow> nat \<Rightarrow> nat" where
  "letterRunStart U runes k =
     (if k = 0 then 0
      else if IsLetter U (runes ! (k - 1)) then letterRunStart U runes (k - 1)
      else k)"

declare letterRunStart.simps [simp del]

definition isAbbreviation :: "unicode_tables \<Rightarrow> rune list \<Rightarrow> nat \<Rightarrow> bool" where
  "isAbbreviation U runes dotPos =
     (if dotPos < 2 then False
      else
        let start = letterRunStart U runes dotPos in
          if dotPos \<le> start then False
          else
            let abbrev = take (dotPos - start) (drop start runes) in
              abbrev \<in> set commonAbbreviations \<or> ToLower U abbrev \<in> set commonAbbreviations)"

text \<open>\<open>None\<close> stands for the result \<^verbatim>\<open>-1\<close>.\<close>

function findNextNonSpace :: "rune list \<Rightarrow> nat \<Rightarrow> nat option" where
  "findNextNonSpace runes i =
     (if i < length runes
      then (if IsSpace (runes ! i) then findNextNonSpace runes (i + 1) else Some i)
      else None)"
  by pat_completeness auto
termination
  by (relation "measure (\<lambda>(runes, i). length runes - i)") auto

declare findNextNonSpace.simps [simp del]

fun lineStartOf :: "rune list \<Rightarrow> nat \<Rightarrow> nat" where
  "lineStartOf runes lineStart =
     (if 0 < lineStart \<and> runes ! (lineStart - 1) \<noteq> 10
      then lineStartOf runes (lineStart - 1)
      else lineStart)"

declare lineStartOf.simps [simp del]

function lineEndOf :: "rune list \<Rightarrow> nat \<Rightarrow> nat" where
  "lineEndOf runes lineEnd =
     (if lineEnd + 1 < length runes \<and> runes ! (lineEnd + 1) \<noteq> 10
      then lineEndOf runes (lineEnd + 1)
      else lineEnd)"
  by pat_completeness auto
termination
  by (relation "measure (\<lambda>(runes, e). length runes - e)") auto

declare lineEndOf.simps [simp del]

definition isInsideTableCell :: "rune list \<Rightarrow> nat \<Rightarrow> bool" where
  "isInsideTableCell runes pos =
     (let lineStart = lineStartOf runes pos;
          lineEnd = lineEndOf runes pos;
          line = take (lineEnd + 1 - lineStart) (drop lineStart runes)
      in
        if detectTableLine line
        then
          let posInLine = pos - lineStart;
              pipesBefore = length (filter (\<lambda>i. runes ! (lineStart + i) = 0x7C) [0..<posInLine]);
              pipesAfter = length (filter (\<lambda>i. runes ! (lineStart + i) = 0x7C)
                                     [posInLine + 1..<lineEnd - lineStart + 1])
          in 0 < pipesBefore \<and> 0 < pipesAfter
        else False)"

text \<open>The function reads \<^verbatim>\<open>runes[pos]\<close>; its callers pass \<open>pos < length runes\<close> only.\<close>

definition isEndOfSentence :: "unicode_tables \<Rightarrow> rune list \<Rightarrow> nat \<Rightarrow> bool" where
  "isEndOfSentence U runes pos =
     (let current = runes ! pos in
      if isInsideTableCell runes pos then False
      else if current = 0x2E \<and> 0 < pos \<and> pos + 1 < length runes
              \<and> IsDigit U (runes ! (pos - 1)) \<and> IsDigit U (runes ! (pos + 1)) then False
      else if current = 0x2E \<and> 0 < pos \<and> isAbbreviation U runes pos then False
      else if current = 0x2E \<and> findNextNonSpace runes (pos + 1) = None then True
      else if current = 0x2E \<and> IsUpper U (runes ! the (findNextNonSpace runes (pos + 1))) then True
      else if current = 0x2E \<and> IsLower U (runes ! the (findNextNonSpace runes (pos + 1))) then False
      else if current = 0x2C \<and> 0 < pos \<and> pos + 1 < length runes
              \<and> IsDigit U (runes ! (pos - 1)) \<and> IsDigit U (runes ! (pos + 1)) then False
      else True)"

text \<open>
  The loop \<^verbatim>\<open>for i, r := range runes\<close> of \<^verbatim>\<open>TokenizeSentencesWithDelimiters\<close>: \<open>rest\<close> is
  what is left to scan from index \<open>i\<close>, \<open>currentSentence\<close> and \<open>sentences\<close> are the two
  accumulators.
\<close>

fun tokenizeLoop ::
  "unicode_tables \<Rightarrow> rune list \<Rightarrow> rune list \<Rightarrow> nat \<Rightarrow> rune list \<Rightarrow> gostring \<Rightarrow> gostring list
     \<Rightarrow> gostring list" where
  "tokenizeLoop U runes delimiterRunes i [] currentSentence sentences =
     (if TrimSpace currentSentence \<noteq> [] then sentences @ [TrimSpace currentSentence]
      else sentences)"
| "tokenizeLoop U runes delimiterRunes i (r # rest) currentSentence sentences =
     (if r \<notin> set delimiterRunes
      then tokenizeLoop U runes delimiterRunes (i + 1) rest (currentSentence @ [r]) sentences
      else if isEndOfSentence U runes i
      then tokenizeLoop U runes delimiterRunes (i + 1) rest []
             (if TrimSpace (currentSentence @ [r]) \<noteq> []
              then sentences @ [TrimSpace (currentSentence @ [r])] else sentences)
      else tokenizeLoop U runes delimiterRunes (i + 1) rest (currentSentence @ [r]) sentences)"

definition TokenizeSentencesWithDelimiters ::
  "unicode_tables \<Rightarrow> gostring \<Rightarrow> gostring \<Rightarrow> gostring list" where
  "TokenizeSentencesWithDelimiters U text delimiters =
     (if text = [] then [] else tokenizeLoop U text delimiters 0 text [] [])"

section \<open>sentence\_splitter.go\<close>

datatype QuickYieldMode = NoQuickYield | QuickYieldFirstFragment | QuickYieldAllFragments

record SentenceSplitterConfig =
  ContextSize :: int
  MinimumSentenceLength :: int
  MinimumFirstFragmentLength :: int
  QuickYield :: QuickYieldMode
  CleanupOptions :: int
  SentenceFragmentDelimiters :: gostring
  FullSentenceDelimiters :: gostring

definition DefaultConfig :: SentenceSplitterConfig where
  "DefaultConfig =
     \<lparr> ContextSize = 12,
       MinimumSentenceLength = 10,
       MinimumFirstFragmentLength = 10,
       QuickYield = QuickYieldAllFragments,
       CleanupOptions = CleanupAll,
       SentenceFragmentDelimiters =
         str ''.?!;:,'' @ [10, 0x2026] @ str '')]}'' @ [0x3002] @ str ''-'',
       FullSentenceDelimiters = str ''.?!'' @ [10, 0x2026, 0x3002] \<rparr>"

record SentenceSplitter =
  contextSize :: int
  minimumSentenceLength :: int
  minimumFirstFragmentLength :: int
  quickYieldMode :: QuickYieldMode
  cleanupOptions :: int
  sentenceFragmentDelimiters :: gostring
  fullSentenceDelimiters :: gostring
  inputBuffer :: "gostring list"
  buffer :: gostring
  isFirstSentence :: bool
  wordCount :: int
  lastDelimiterPosition :: int
  fragmentDelimiterSet :: "rune set"
  fullDelimiterSet :: "rune set"

definition NewSentenceSplitter :: "SentenceSplitterConfig \<Rightarrow> SentenceSplitter" where
  "NewSentenceSplitter config =
     \<lparr> contextSize = ContextSize config,
       minimumSentenceLength = MinimumSentenceLength config,
       minimumFirstFragmentLength = MinimumFirstFragmentLength config,
       quickYieldMode = QuickYield config,
       cleanupOptions = CleanupOptions config,
       sentenceFragmentDelimiters = SentenceFragmentDelimiters config,
       fullSentenceDelimiters = FullSentenceDelimiters config,
       inputBuffer = [],
       buffer = [],
       isFirstSentence = True,
       wordCount = 0,
       lastDelimiterPosition = - 1,
       fragmentDelimiterSet = set (SentenceFragmentDelimiters config),
       fullDelimiterSet = set (FullSentenceDelimiters config) \<rparr>"

definition Add :: "SentenceSplitter \<Rightarrow> gostring \<Rightarrow> SentenceSplitter" where
  "Add s chunk = s\<lparr>inputBuffer := inputBuffer s @ [chunk]\<rparr>"

text \<open>Arithmetic on Go's 64-bit \<^verbatim>\<open>int\<close> wraps around.\<close>

definition wrap64 :: "int \<Rightarrow> int" where
  "wrap64 x = (x + 2 ^ 63) mod 2 ^ 64 - 2 ^ 63"

fun combineLoop :: "int \<Rightarrow> gostring list \<Rightarrow> gostring list \<Rightarrow> gostring \<Rightarrow> gostring list" where
  "combineLoop minLen [] combined tempSentence =
     (if tempSentence \<noteq> [] then combined @ [TrimSpace tempSentence] else combined)"
| "combineLoop minLen (sentence # rest) combined tempSentence =
     (if byteLen sentence < minLen
      then combineLoop minLen rest combined (tempSentence @ sentence @ [32])
      else if tempSentence \<noteq> []
      then combineLoop minLen rest (combined @ [TrimSpace (tempSentence @ sentence)]) []
      else combineLoop minLen rest (combined @ [TrimSpace sentence]) [])"

definition combineSentences :: "SentenceSplitter \<Rightarrow> gostring list \<Rightarrow> gostring list" where
  "combineSentences s sentences =
     (if length sentences \<le> 1 then sentences
      else combineLoop (minimumSentenceLength s) sentences [] [])"

text \<open>
  Every string sent on the result channel is recorded together with the statement that
  sent it: the quick-yield send, the send of the context-window branch, or a send of
  \<^verbatim>\<open>Flush\<close>. The channel's content is the list of the strings, in the order of the sends.
\<close>

datatype send_site = QuickYieldSend | WindowSend | FlushSend

type_synonym emission = "send_site \<times> gostring"

definition sent :: "emission list \<Rightarrow> gostring list" where
  "sent out = map snd out"

text \<open>
  The part of the body of the character loop of \<^verbatim>\<open>Stream\<close> that follows the check of the
  buffer length against \<^verbatim>\<open>minimumSentenceLength + contextSize\<close>.
\<close>

definition windowStep ::
  "unicode_tables \<Rightarrow> SentenceSplitter \<Rightarrow> rune \<Rightarrow> SentenceSplitter \<times> emission list" where
  "windowStep U s char =
     (let s3 = (if char \<in> fullDelimiterSet s
                then s\<lparr>lastDelimiterPosition := byteLen (buffer s) - 1\<rparr> else s);
          contextWindowEndPos = wrap64 (byteLen (buffer s3) - contextSize s3 - 1);
          contextWindowStartPos =
            (if wrap64 (contextWindowEndPos - contextSize s3) < 0 then 0
             else wrap64 (contextWindowEndPos - contextSize s3));
          sentences = combineSentences s3
            (TokenizeSentencesWithDelimiters U (buffer s3) (sentenceFragmentDelimiters s3));
          shouldProcess =
            (2 < length sentences
             \<or> (0 \<le> lastDelimiterPosition s3
                \<and> contextWindowStartPos \<le> lastDelimiterPosition s3
                \<and> lastDelimiterPosition s3 \<le> contextWindowEndPos))
      in
        if shouldProcess \<and> 1 < length sentences
        then
          if minimumSentenceLength s3 \<le> sum_list (map byteLen (butlast sentences))
          then
            (s3\<lparr> wordCount := 0,
                 isFirstSentence :=
                   (if quickYieldMode s3 = QuickYieldAllFragments then True
                    else isFirstSentence s3),
                 buffer := last sentences @ (if HasSuffix (buffer s3) [32] then [32] else []),
                 lastDelimiterPosition := - 1 \<rparr>,
             map (\<lambda>sentence. (WindowSend, CleanText sentence (cleanupOptions s3)))
               (butlast sentences))
          else (s3, [])
        else (s3, []))"

text \<open>The body of the loop \<^verbatim>\<open>for _, char := range chunk\<close>.\<close>

definition processChar ::
  "unicode_tables \<Rightarrow> SentenceSplitter \<Rightarrow> rune \<Rightarrow> SentenceSplitter \<times> emission list" where
  "processChar U s char =
     (if char = 0 then (s, [])
      else
        let s1 = s\<lparr>buffer := TrimLeft (buffer s @ [char])\<rparr>;
            s2 = (if IsSpace char \<or> char \<in> fragmentDelimiterSet s1
                  then s1\<lparr>wordCount := wrap64 (wordCount s1 + 1)\<rparr> else s1)
        in
          if isFirstSentence s2
             \<and> minimumFirstFragmentLength s2 < byteLen (buffer s2)
             \<and> (quickYieldMode s2 = QuickYieldFirstFragment
                \<or> quickYieldMode s2 = QuickYieldAllFragments)
             \<and> char \<in> fragmentDelimiterSet s2
          then (s2\<lparr>buffer := [], wordCount := 0, isFirstSentence := False\<rparr>,
                [(QuickYieldSend, CleanText (buffer s2) (cleanupOptions s2))])
          else if byteLen (buffer s2) \<le> wrap64 (minimumSentenceLength s2 + contextSize s2)
          then (s2, [])
          else windowStep U s2 char)"

fun processChunk ::
  "unicode_tables \<Rightarrow> SentenceSplitter \<Rightarrow> gostring \<Rightarrow> SentenceSplitter \<times> emission list" where
  "processChunk U s [] = (s, [])"
| "processChunk U s (char # rest) =
     (case processChar U s char of
        (s1, out1) \<Rightarrow> (case processChunk U s1 rest of (s2, out2) \<Rightarrow> (s2, out1 @ out2)))"

text \<open>The loop \<^verbatim>\<open>for s.inputBuffer.Len() > 0\<close>, on the chunks that are queued.\<close>

fun streamLoop ::
  "unicode_tables \<Rightarrow> SentenceSplitter \<Rightarrow> gostring list \<Rightarrow> SentenceSplitter \<times> emission list" where
  "streamLoop U s [] = (s, [])"
| "streamLoop U s (chunk # queue) =
     (case processChunk U (s\<lparr>inputBuffer := queue\<rparr>) chunk of
        (s1, out1) \<Rightarrow> (case streamLoop U s1 queue of (s2, out2) \<Rightarrow> (s2, out1 @ out2)))"

definition Stream ::
  "unicode_tables \<Rightarrow> SentenceSplitter \<Rightarrow> SentenceSplitter \<times> emission list" where
  "Stream U s = streamLoop U s (inputBuffer s)"

fun flushLoop :: "SentenceSplitter \<Rightarrow> gostring list \<Rightarrow> gostring \<Rightarrow> emission list" where
  "flushLoop s [] sentenceBuffer =
     (if sentenceBuffer \<noteq> []
      then [(FlushSend, CleanText sentenceBuffer (cleanupOptions s))] else [])"
| "flushLoop s (sentence # rest) sentenceBuffer =
     (if byteLen (sentenceBuffer @ sentence) < minimumSentenceLength s
      then flushLoop s rest (sentenceBuffer @ sentence @ [32])
      else (FlushSend, CleanText (sentenceBuffer @ sentence) (cleanupOptions s))
             # flushLoop s rest [])"

definition Flush :: "unicode_tables \<Rightarrow> SentenceSplitter \<Rightarrow> emission list" where
  "Flush U s =
     (if 0 < byteLen (buffer s)
      then flushLoop s
             (TokenizeSentencesWithDelimiters U (buffer s) (sentenceFragmentDelimiters s)) []
      else [])"

section \<open>The synchronous API\<close>

text \<open>
  \<^verbatim>\<open>GenerateSentences\<close>: every chunk of the generator is added and the stream drained, then
  the splitter is flushed.
\<close>

fun generateLoop ::
  "unicode_tables \<Rightarrow> SentenceSplitter \<Rightarrow> gostring list \<Rightarrow> emission list" where
  "generateLoop U splitter [] = Flush U splitter"
| "generateLoop U splitter (chunk # generator) =
     (case Stream U (Add splitter chunk) of
        (splitter1, out) \<Rightarrow> out @ generateLoop U splitter1 generator)"

definition GenerateSentences ::
  "unicode_tables \<Rightarrow> gostring list \<Rightarrow> SentenceSplitterConfig \<Rightarrow> emission list" where
  "GenerateSentences U generator config =
     generateLoop U (NewSentenceSplitter config) generator"

definition GenerateSentencesFromString ::
  "unicode_tables \<Rightarrow> gostring \<Rightarrow> SentenceSplitterConfig \<Rightarrow> emission list" where
  "GenerateSentencesFromString U text config = GenerateSentences U [text] config"

section \<open>Notions used in the statements and proofs\<close>

text \<open>
  An instance of the Unicode tables with nothing beyond Latin-1, to evaluate examples. On
  Latin-1 input every instance gives the same results.
\<close>

definition latin1Tables :: unicode_tables where
  "latin1Tables = \<lparr> digitTable = (\<lambda>r. False), upperTable = (\<lambda>r. False),
      lowerTable = (\<lambda>r. False), letterTable = (\<lambda>r. False), lowerCaseMap = (\<lambda>r. r) \<rparr>"

text \<open>A string is \<open>trimmed\<close> when it is not empty and neither starts nor ends with white space.\<close>

definition trimmed :: "gostring \<Rightarrow> bool" where
  "trimmed x = (x \<noteq> [] \<and> \<not> IsSpace (hd x) \<and> \<not> IsSpace (last x))"

text \<open>Two splitter states with the same configuration fields.\<close>

definition sameConfig :: "SentenceSplitter \<Rightarrow> SentenceSplitter \<Rightarrow> bool" where
  "sameConfig s s' =
     (contextSize s' = contextSize s
      \<and> minimumSentenceLength s' = minimumSentenceLength s
      \<and> minimumFirstFragmentLength s' = minimumFirstFragmentLength s
      \<and> quickYieldMode s' = quickYieldMode s
      \<and> cleanupOptions s' = cleanupOptions s
      \<and> sentenceFragmentDelimiters s' = sentenceFragmentDelimiters s
      \<and> fullSentenceDelimiters s' = fullSentenceDelimiters s
      \<and> fragmentDelimiterSet s' = fragmentDelimiterSet s
      \<and> fullDelimiterSet s' = fullDelimiterSet s)"


text \<open>
  Names for parts of \<open>processChar\<close> and \<open>windowStep\<close>: the state after the character is
  appended and counted, the state after the full-sentence delimiter is recorded, the coalesced
  sentences of the buffer, and the condition under which the context-window branch sends.
\<close>

definition appendChar :: "SentenceSplitter \<Rightarrow> rune \<Rightarrow> SentenceSplitter" where
  "appendChar s char =
     (let s1 = s\<lparr>buffer := TrimLeft (buffer s @ [char])\<rparr>
      in if IsSpace char \<or> char \<in> fragmentDelimiterSet s1
         then s1\<lparr>wordCount := wrap64 (wordCount s1 + 1)\<rparr> else s1)"

definition markDelimiter :: "SentenceSplitter \<Rightarrow> rune \<Rightarrow> SentenceSplitter" where
  "markDelimiter s char =
     (if char \<in> fullDelimiterSet s
      then s\<lparr>lastDelimiterPosition := byteLen (buffer s) - 1\<rparr> else s)"

definition windowSentences :: "unicode_tables \<Rightarrow> SentenceSplitter \<Rightarrow> gostring list" where
  "windowSentences U s =
     combineSentences s
       (TokenizeSentencesWithDelimiters U (buffer s) (sentenceFragmentDelimiters s))"

definition windowEmits :: "unicode_tables \<Rightarrow> SentenceSplitter \<Rightarrow> rune \<Rightarrow> bool" where
  "windowEmits U s char =
     (let s3 = markDelimiter s char;
          contextWindowEndPos = wrap64 (byteLen (buffer s3) - contextSize s3 - 1);
          contextWindowStartPos =
            (if wrap64 (contextWindowEndPos - contextSize s3) < 0 then 0
             else wrap64 (contextWindowEndPos - contextSize s3))
      in (2 < length (windowSentences U s)
           \<or> (0 \<le> lastDelimiterPosition s3
              \<and> contextWindowStartPos \<le> lastDelimiterPosition s3
              \<and> lastDelimiterPosition s3 \<le> contextWindowEndPos))
         \<and> 1 < length (windowSentences U s)
         \<and> minimumSentenceLength s \<le> sum_list (map byteLen (butlast (windowSentences U s))))"

text \<open>
  The two tests of \<open>processChar\<close>: the quick-yield condition, and the check that the buffer is
  not yet longer than the minimum sentence length plus the context size.
\<close>

definition quickYields :: "SentenceSplitter \<Rightarrow> rune \<Rightarrow> bool" where
  "quickYields s char =
     (isFirstSentence s
      \<and> minimumFirstFragmentLength s < byteLen (TrimLeft (buffer s @ [char]))
      \<and> (quickYieldMode s = QuickYieldFirstFragment
         \<or> quickYieldMode s = QuickYieldAllFragments)
      \<and> char \<in> fragmentDelimiterSet s)"

definition belowWindow :: "SentenceSplitter \<Rightarrow> rune \<Rightarrow> bool" where
  "belowWindow s char =
     (byteLen (TrimLeft (buffer s @ [char]))
        \<le> wrap64 (minimumSentenceLength s + contextSize s))"



section \<open>Lemmas\<close>








lemma trimmed_join: "trimmed a \<Longrightarrow> trimmed b \<Longrightarrow> trimmed (a @ m @ b)"
  by (simp add: trimmed_def)








lemma appendChar_fields:
  "sameConfig s (appendChar s c)"
  "buffer (appendChar s c) = TrimLeft (buffer s @ [c])"
  "isFirstSentence (appendChar s c) = isFirstSentence s"
  "lastDelimiterPosition (appendChar s c) = lastDelimiterPosition s"
  "inputBuffer (appendChar s c) = inputBuffer s"
  by (simp_all add: appendChar_def sameConfig_def Let_def)

lemma processChar_unfold:
  "processChar U s c =
     (if c = 0 then (s, [])
      else if isFirstSentence s
              \<and> minimumFirstFragmentLength s < byteLen (TrimLeft (buffer s @ [c]))
              \<and> (quickYieldMode s = QuickYieldFirstFragment
                 \<or> quickYieldMode s = QuickYieldAllFragments)
              \<and> c \<in> fragmentDelimiterSet s
      then ((appendChar s c)\<lparr>buffer := [], wordCount := 0, isFirstSentence := False\<rparr>,
            [(QuickYieldSend, CleanText (TrimLeft (buffer s @ [c])) (cleanupOptions s))])
      else if byteLen (TrimLeft (buffer s @ [c]))
                \<le> wrap64 (minimumSentenceLength s + contextSize s)
      then (appendChar s c, [])
      else windowStep U (appendChar s c) c)"
  by (auto simp add: processChar_def appendChar_def Let_def)

lemma combineSentences_ldp:
  "combineSentences (s\<lparr>lastDelimiterPosition := p\<rparr>) = combineSentences s"
  by (rule ext) (simp add: combineSentences_def)

lemma markDelimiter_fields:
  "sameConfig s (markDelimiter s c)"
  "buffer (markDelimiter s c) = buffer s"
  "isFirstSentence (markDelimiter s c) = isFirstSentence s"
  "inputBuffer (markDelimiter s c) = inputBuffer s"
  "wordCount (markDelimiter s c) = wordCount s"
  by (simp_all add: markDelimiter_def sameConfig_def)

lemma windowSentences_markDelimiter:
  "windowSentences U (markDelimiter s c) = windowSentences U s"
  by (simp add: windowSentences_def markDelimiter_def combineSentences_def)

lemma if_nest: "(if A \<and> B then (if C then X else Y) else Y) = (if A \<and> B \<and> C then X else Y)"
  by simp

lemma windowStep_unfold:
  "windowStep U s c =
     (if windowEmits U s c
      then ((markDelimiter s c)
              \<lparr> wordCount := 0,
                isFirstSentence :=
                  (if quickYieldMode s = QuickYieldAllFragments then True
                   else isFirstSentence s),
                buffer := last (windowSentences U s)
                            @ (if HasSuffix (buffer s) [32] then [32] else []),
                lastDelimiterPosition := - 1 \<rparr>,
            map (\<lambda>sentence. (WindowSend, CleanText sentence (cleanupOptions s)))
              (butlast (windowSentences U s)))
      else (markDelimiter s c, []))"
proof -
  have a: "(if c \<in> fullDelimiterSet s
            then s\<lparr>lastDelimiterPosition := byteLen (buffer s) - 1\<rparr> else s) = markDelimiter s c"
    by (simp add: markDelimiter_def)
  have b: "combineSentences (markDelimiter s c) = combineSentences s"
    by (rule ext) (simp add: combineSentences_def markDelimiter_def)
  have f: "quickYieldMode (markDelimiter s c) = quickYieldMode s"
    "cleanupOptions (markDelimiter s c) = cleanupOptions s"
    "minimumSentenceLength (markDelimiter s c) = minimumSentenceLength s"
    "isFirstSentence (markDelimiter s c) = isFirstSentence s"
    "buffer (markDelimiter s c) = buffer s"
    "sentenceFragmentDelimiters (markDelimiter s c) = sentenceFragmentDelimiters s"
    by (simp_all add: markDelimiter_def)
  show ?thesis
    unfolding windowStep_def windowEmits_def windowSentences_def Let_def a b f
    by (rule if_nest)
qed

lemma windowEmits_length: "windowEmits U s c \<Longrightarrow> 1 < length (windowSentences U s)"
  by (simp add: windowEmits_def Let_def)















lemma tokenizeLoop_no_delimiter:
  "set rest \<inter> set ds = {} \<Longrightarrow>
   tokenizeLoop U runes ds i rest cur sents =
     (if TrimSpace (cur @ rest) \<noteq> [] then sents @ [TrimSpace (cur @ rest)] else sents)"
  by (induction rest arbitrary: i cur) auto

lemma findNextNonSpace_char:
  "findNextNonSpace runes i =
     (if dropWhile IsSpace (drop i runes) = [] then None
      else Some (i + length (takeWhile IsSpace (drop i runes))))"
proof (induction runes i rule: findNextNonSpace.induct)
  case (1 runes i)
  show ?case
  proof (cases "i < length runes")
    case False
    then show ?thesis by (simp add: findNextNonSpace.simps [of runes i])
  next
    case True
    then have d: "drop i runes = runes ! i # drop (i + 1) runes"
      by (simp add: Cons_nth_drop_Suc)
    show ?thesis
    proof (cases "IsSpace (runes ! i)")
      case sp: True
      from 1 [OF True sp] show ?thesis
        using True sp d by (simp add: findNextNonSpace.simps [of runes i])
    next
      case nsp: False
      then show ?thesis using True d by (simp add: findNextNonSpace.simps [of runes i])
    qed
  qed
qed

lemma nth_first_nonspace:
  assumes "dropWhile IsSpace (drop i runes) \<noteq> []"
  shows "runes ! (i + length (takeWhile IsSpace (drop i runes))) = hd (dropWhile IsSpace (drop i runes))"
proof -
  let ?xs = "drop i runes"
  let ?k = "length (takeWhile IsSpace ?xs)"
  have pos: "0 < length (dropWhile IsSpace ?xs)" using assms by simp
  have "length (takeWhile IsSpace ?xs @ dropWhile IsSpace ?xs) = length ?xs"
    by (simp only: takeWhile_dropWhile_id)
  then have "?k + length (dropWhile IsSpace ?xs) = length ?xs"
    by (simp only: length_append)
  then have k: "?k < length ?xs" using pos by linarith
  have "dropWhile IsSpace ?xs ! 0 = ?xs ! (0 + ?k)"
    using pos by (rule dropWhile_nth)
  then have "hd (dropWhile IsSpace ?xs) = ?xs ! ?k"
    using assms by (simp add: hd_conv_nth)
  also have "?xs ! ?k = runes ! (i + ?k)"
    using k by simp
  finally show ?thesis by simp
qed

lemma period_rule:
  assumes "runes ! pos = 0x2E"
    and "\<not> isInsideTableCell runes pos"
    and "\<not> (0 < pos \<and> pos + 1 < length runes
            \<and> IsDigit U (runes ! (pos - 1)) \<and> IsDigit U (runes ! (pos + 1)))"
    and "\<not> (0 < pos \<and> isAbbreviation U runes pos)"
  shows "isEndOfSentence U runes pos =
     (if findNextNonSpace runes (pos + 1) = None then True
      else if IsUpper U (runes ! the (findNextNonSpace runes (pos + 1))) then True
      else if IsLower U (runes ! the (findNextNonSpace runes (pos + 1))) then False
      else True)"
proof -
  have dec: "(0 < pos \<and> pos + 1 < length runes
            \<and> IsDigit U (runes ! (pos - 1)) \<and> IsDigit U (runes ! (pos + 1))) = False"
    using assms(3) by blast
  have abb: "(0 < pos \<and> isAbbreviation U runes pos) = False"
    using assms(4) by blast
  have tab: "isInsideTableCell runes pos = False" using assms(2) by simp
  have cur: "(runes ! pos = 0x2E) = True" using assms(1) by simp
  show ?thesis
    unfolding isEndOfSentence_def Let_def
    by (simp only: dec abb tab cur simp_thms if_True if_False)
qed

lemma in_set_take_drop:
  "x \<in> set (take n (drop a xs)) \<longleftrightarrow> (\<exists>k<n. a + k < length xs \<and> xs ! (a + k) = x)"
proof
  assume "x \<in> set (take n (drop a xs))"
  then obtain k where k: "k < length (take n (drop a xs))" "take n (drop a xs) ! k = x"
    unfolding in_set_conv_nth by blast
  then have kn: "k < n" and kl: "a + k < length xs" by auto
  have "take n (drop a xs) ! k = drop a xs ! k" using kn by simp
  also have "\<dots> = xs ! (a + k)" using kl by (intro nth_drop) simp
  finally have "xs ! (a + k) = x" using k(2) by simp
  then show "\<exists>k<n. a + k < length xs \<and> xs ! (a + k) = x" using kn kl by blast
next
  assume "\<exists>k<n. a + k < length xs \<and> xs ! (a + k) = x"
  then obtain k where k: "k < n" "a + k < length xs" "xs ! (a + k) = x" by blast
  then have l: "k < length (take n (drop a xs))" by simp
  have "take n (drop a xs) ! k = drop a xs ! k" using k(1) by simp
  also have "\<dots> = xs ! (a + k)" using k(2) by (intro nth_drop) simp
  finally have "take n (drop a xs) ! k = x" using k(3) by simp
  then show "x \<in> set (take n (drop a xs))" using l unfolding in_set_conv_nth by blast
qed

lemma lineStartOf_eq:
  assumes "a = 0 \<or> runes ! (a - 1) = 10"
    and "\<forall>i. a \<le> i \<and> i < pos \<longrightarrow> runes ! i \<noteq> 10"
    and "a \<le> p" and "p \<le> pos"
  shows "lineStartOf runes p = a"
  using assms(3,4)
proof (induction p)
  case 0
  then show ?case by (simp add: lineStartOf.simps [of runes 0])
next
  case (Suc q)
  show ?case
  proof (cases "a = Suc q")
    case True
    then have "runes ! q = 10" using assms(1) by simp
    then show ?thesis using True by (simp add: lineStartOf.simps [of runes "Suc q"])
  next
    case False
    then have q: "a \<le> q" "q < pos" using Suc.prems by simp_all
    then have "runes ! q \<noteq> 10" using assms(2) by blast
    then have "lineStartOf runes (Suc q) = lineStartOf runes q"
      by (simp add: lineStartOf.simps [of runes "Suc q"])
    then show ?thesis using Suc.IH q by simp
  qed
qed

lemma lineEndOf_eq:
  assumes "b < length runes"
    and "b + 1 = length runes \<or> runes ! (b + 1) = 10"
    and "\<forall>i. pos < i \<and> i \<le> b \<longrightarrow> runes ! i \<noteq> 10"
    and "pos \<le> p" and "p \<le> b"
  shows "lineEndOf runes p = b"
  using assms(4,5)
proof (induction "b - p" arbitrary: p)
  case 0
  then have "p = b" by simp
  then show ?case using assms(1,2) by (auto simp: lineEndOf.simps [of runes b])
next
  case (Suc n)
  then have lt: "p < b" by simp
  then have "p + 1 < length runes" using assms(1) by simp
  moreover have "runes ! (p + 1) \<noteq> 10" using assms(3) Suc.prems lt by simp
  ultimately have "lineEndOf runes p = lineEndOf runes (p + 1)"
    by (simp add: lineEndOf.simps [of runes p])
  moreover have "lineEndOf runes (p + 1) = b"
    using Suc.hyps(2) Suc.prems lt by (intro Suc.hyps(1)) simp_all
  ultimately show ?case by simp
qed

lemma filter_dropWhile_other:
  "(\<And>x. P x \<Longrightarrow> \<not> Q x) \<Longrightarrow> filter P (dropWhile Q xs) = filter P xs"
  by (induction xs) auto

lemma filter_TrimSpace:
  assumes "\<And>x. P x \<Longrightarrow> \<not> IsSpace x"
  shows "filter P (TrimSpace s) = filter P s"
proof -
  have "filter P (TrimSpace s) = rev (filter P (dropWhile IsSpace (rev (dropWhile IsSpace s))))"
    by (simp add: TrimSpace_def rev_filter)
  also have "\<dots> = rev (filter P (rev (dropWhile IsSpace s)))"
    by (simp only: filter_dropWhile_other [of P IsSpace, OF assms])
  also have "\<dots> = filter P (dropWhile IsSpace s)" by (simp add: rev_filter)
  also have "\<dots> = filter P s"
    by (simp only: filter_dropWhile_other [of P IsSpace, OF assms])
  finally show ?thesis .
qed

lemma two_occurrences:
  assumes "c \<in> set xs" and "c \<in> set ys"
  shows "2 \<le> length (filter (\<lambda>r. r = c) (xs @ m # ys))"
proof -
  have "filter (\<lambda>r. r = c) xs \<noteq> []" "filter (\<lambda>r. r = c) ys \<noteq> []"
    using assms by (auto simp: filter_empty_conv)
  then have "1 \<le> length (filter (\<lambda>r. r = c) xs)" "1 \<le> length (filter (\<lambda>r. r = c) ys)"
    by (simp_all add: Suc_leI)
  then show ?thesis by simp
qed

lemma pipe_not_space: "r = 0x7C \<Longrightarrow> \<not> IsSpace r"
  by (simp add: IsSpace_def isLatin1_def)

lemma detectTableLine_two_pipes:
  assumes "2 \<le> length (filter (\<lambda>r. r = 0x7C) line)"
  shows "detectTableLine line"
proof -
  have f: "filter (\<lambda>r. r = 0x7C) (TrimSpace line) = filter (\<lambda>r. r = 0x7C) line"
    by (rule filter_TrimSpace) (rule pipe_not_space)
  then have c: "2 \<le> Count (TrimSpace line) 0x7C" using assms by (simp add: Count_def)
  have "TrimSpace line \<noteq> []"
  proof
    assume "TrimSpace line = []"
    then have "filter (\<lambda>r. r = 0x7C) line = []" using f by simp
    then show False using assms by simp
  qed
  then show ?thesis using c by (simp add: detectTableLine_def Let_def)
qed

lemma line_split:
  assumes "a \<le> pos" "pos \<le> b" "b < length runes"
  shows "take (b + 1 - a) (drop a runes)
           = take (pos - a) (drop a runes) @ runes ! pos # take (b - pos) (drop (pos + 1) runes)"
proof -
  have "drop a runes = take (pos - a) (drop a runes) @ drop (pos - a) (drop a runes)"
    by (rule append_take_drop_id [symmetric])
  also have "drop (pos - a) (drop a runes) = drop pos runes" using assms by simp
  also have "drop pos runes = runes ! pos # drop (pos + 1) runes"
    using assms by (simp add: Cons_nth_drop_Suc)
  finally have d: "drop a runes
      = take (pos - a) (drop a runes) @ runes ! pos # drop (pos + 1) runes" .
  have l: "length (take (pos - a) (drop a runes)) = pos - a" using assms by simp
  have "take (b + 1 - a) (drop a runes)
      = take (b + 1 - a) (take (pos - a) (drop a runes) @ runes ! pos # drop (pos + 1) runes)"
    using d by simp
  also have "\<dots> = take (pos - a) (drop a runes)
       @ take (b + 1 - a - (pos - a)) (runes ! pos # drop (pos + 1) runes)"
    using assms l by (simp add: take_append min_def)
  also have "b + 1 - a - (pos - a) = Suc (b - pos)" using assms by simp
  finally show ?thesis by simp
qed

lemma isInsideTableCell_pipes:
  assumes "a \<le> pos" "pos \<le> b" "b < length runes"
    and "a = 0 \<or> runes ! (a - 1) = 10"
    and "10 \<notin> set (take (pos - a) (drop a runes))"
    and "b + 1 = length runes \<or> runes ! (b + 1) = 10"
    and "10 \<notin> set (take (b - pos) (drop (pos + 1) runes))"
    and "0x7C \<in> set (take (pos - a) (drop a runes))"
    and "0x7C \<in> set (take (b - pos) (drop (pos + 1) runes))"
  shows "lineStartOf runes pos = a" and "lineEndOf runes pos = b"
    and "detectTableLine (take (b + 1 - a) (drop a runes))"
    and "isInsideTableCell runes pos"
proof -
  have n1: "\<forall>i. a \<le> i \<and> i < pos \<longrightarrow> runes ! i \<noteq> 10"
  proof (intro allI impI)
    fix i assume "a \<le> i \<and> i < pos"
    then have i: "a \<le> i" "i < pos" by simp_all
    show "runes ! i \<noteq> 10"
    proof
      assume "runes ! i = 10"
      moreover have "i - a < pos - a" "a + (i - a) = i" "i < length runes"
        using i assms(2,3) by simp_all
      ultimately have "\<exists>k<pos - a. a + k < length runes \<and> runes ! (a + k) = 10"
        by (intro exI [of _ "i - a"]) simp
      then show False using assms(5) by (simp only: in_set_take_drop [symmetric])
    qed
  qed
  have n2: "\<forall>i. pos < i \<and> i \<le> b \<longrightarrow> runes ! i \<noteq> 10"
  proof (intro allI impI)
    fix i assume "pos < i \<and> i \<le> b"
    then have i: "pos < i" "i \<le> b" by simp_all
    show "runes ! i \<noteq> 10"
    proof
      assume "runes ! i = 10"
      moreover have "i - (pos + 1) < b - pos" "pos + 1 + (i - (pos + 1)) = i" "i < length runes"
        using i assms(3) by simp_all
      ultimately have "\<exists>k<b - pos. pos + 1 + k < length runes \<and> runes ! (pos + 1 + k) = 10"
        by (intro exI [of _ "i - (pos + 1)"]) simp
      then show False using assms(7) by (simp only: in_set_take_drop [symmetric])
    qed
  qed
  show s: "lineStartOf runes pos = a"
    using assms(4) n1 assms(1) by (rule lineStartOf_eq) simp
  show e: "lineEndOf runes pos = b"
    using assms(3,6) n2 by (rule lineEndOf_eq) (simp_all add: assms(2))
  have "2 \<le> length (filter (\<lambda>r. r = 0x7C) (take (b + 1 - a) (drop a runes)))"
    unfolding line_split [OF assms(1-3)] using assms(8,9) by (rule two_occurrences)
  then show d: "detectTableLine (take (b + 1 - a) (drop a runes))"
    by (rule detectTableLine_two_pipes)
  obtain k where k: "k < pos - a" "runes ! (a + k) = 0x7C"
    using assms(8) unfolding in_set_take_drop by blast
  then have "k \<in> set (filter (\<lambda>i. runes ! (a + i) = 0x7C) [0..<pos - a])" by simp
  then have before: "0 < length (filter (\<lambda>i. runes ! (a + i) = 0x7C) [0..<pos - a])"
    by (rule length_pos_if_in_set)
  obtain m where m: "m < b - pos" "runes ! (pos + 1 + m) = 0x7C"
    using assms(9) unfolding in_set_take_drop by blast
  have "pos - a + 1 + m \<in> set (filter (\<lambda>i. runes ! (a + i) = 0x7C)
           [pos - a + 1..<b - a + 1])"
  proof -
    have "a + (pos - a + 1 + m) = pos + 1 + m" using assms(1) by simp
    then have v: "runes ! (a + (pos - a + 1 + m)) = 0x7C" using m(2) by simp
    have lo: "pos - a + 1 \<le> pos - a + 1 + m" by simp
    have hi: "pos - a + 1 + m < b - a + 1" using m(1) assms(1,2) by simp
    show ?thesis
      unfolding set_filter set_upt
      by (simp only: mem_Collect_eq atLeastLessThan_iff lo hi v simp_thms)
  qed
  then have after: "0 < length (filter (\<lambda>i. runes ! (a + i) = 0x7C)
           [pos - a + 1..<b - a + 1])"
    by (rule length_pos_if_in_set)
  show "isInsideTableCell runes pos"
    unfolding isInsideTableCell_def Let_def s e using d before after by simp
qed

lemma processChar_steps:
  "processChar U s c =
     (if c = 0 then (s, [])
      else if quickYields s c
      then ((appendChar s c)\<lparr>buffer := [], wordCount := 0, isFirstSentence := False\<rparr>,
            [(QuickYieldSend, CleanText (TrimLeft (buffer s @ [c])) (cleanupOptions s))])
      else if belowWindow s c then (appendChar s c, [])
      else windowStep U (appendChar s c) c)"
  by (simp only: processChar_unfold quickYields_def belowWindow_def)

lemma quickYields_inputBuffer: "quickYields (s\<lparr>inputBuffer := q\<rparr>) c = quickYields s c"
  by (simp add: quickYields_def)

lemma belowWindow_inputBuffer: "belowWindow (s\<lparr>inputBuffer := q\<rparr>) c = belowWindow s c"
  by (simp add: belowWindow_def)

lemma processChar_nul: "processChar U s 0 = (s, [])"
  by (simp add: processChar_def)

lemma processChunk_filter_nul:
  "processChunk U s chunk = processChunk U s (filter (\<lambda>c. c \<noteq> 0) chunk)"
  by (induction chunk arbitrary: s) (simp_all add: processChar_nul)

lemma processChunk_append:
  "processChunk U s (xs @ ys) =
     (case processChunk U s xs of
        (s1, out1) \<Rightarrow> (case processChunk U s1 ys of (s2, out2) \<Rightarrow> (s2, out1 @ out2)))"
  by (induction xs arbitrary: s) (simp_all split: prod.splits)

lemma appendChar_inputBuffer:
  "appendChar (s\<lparr>inputBuffer := q\<rparr>) c = (appendChar s c)\<lparr>inputBuffer := q\<rparr>"
  by (simp add: appendChar_def Let_def)

lemma markDelimiter_inputBuffer:
  "markDelimiter (s\<lparr>inputBuffer := q\<rparr>) c = (markDelimiter s c)\<lparr>inputBuffer := q\<rparr>"
  by (simp add: markDelimiter_def)

lemma windowSentences_inputBuffer:
  "windowSentences U (s\<lparr>inputBuffer := q\<rparr>) = windowSentences U s"
  by (simp add: windowSentences_def combineSentences_def)

lemma windowEmits_inputBuffer:
  "windowEmits U (s\<lparr>inputBuffer := q\<rparr>) c = windowEmits U s c"
  by (simp add: windowEmits_def Let_def windowSentences_inputBuffer markDelimiter_inputBuffer)

lemma windowStep_inputBuffer:
  "windowStep U (s\<lparr>inputBuffer := q\<rparr>) c =
     (case windowStep U s c of (s', out) \<Rightarrow> (s'\<lparr>inputBuffer := q\<rparr>, out))"
  by (simp add: windowStep_unfold windowEmits_inputBuffer windowSentences_inputBuffer
      markDelimiter_inputBuffer)

lemma processChar_inputBuffer:
  "processChar U (s\<lparr>inputBuffer := q\<rparr>) c =
     (case processChar U s c of (s', out) \<Rightarrow> (s'\<lparr>inputBuffer := q\<rparr>, out))"
  by (simp add: processChar_steps quickYields_inputBuffer belowWindow_inputBuffer
      appendChar_inputBuffer windowStep_inputBuffer)

lemma processChunk_inputBuffer:
  "processChunk U (s\<lparr>inputBuffer := q\<rparr>) chunk =
     (case processChunk U s chunk of (s', out) \<Rightarrow> (s'\<lparr>inputBuffer := q\<rparr>, out))"
proof (induction chunk arbitrary: s)
  case Nil
  show ?case by simp
next
  case (Cons c chunk)
  obtain s1 out1 where p: "processChar U s c = (s1, out1)" by (cases "processChar U s c")
  obtain s2 out2 where r: "processChunk U s1 chunk = (s2, out2)"
    by (cases "processChunk U s1 chunk")
  show ?case
    by (simp add: processChar_inputBuffer p Cons.IH r)
qed

lemma windowStep_keeps_inputBuffer:
  "windowStep U s c = (s', out) \<Longrightarrow> inputBuffer s' = inputBuffer s"
  by (auto simp: windowStep_unfold markDelimiter_fields split: if_splits)

lemma processChar_keeps_inputBuffer:
  assumes "processChar U s c = (s', out)"
  shows "inputBuffer s' = inputBuffer s"
proof -
  have "processChar U (s\<lparr>inputBuffer := inputBuffer s\<rparr>) c = (s', out)" using assms by simp
  then have "(s'\<lparr>inputBuffer := inputBuffer s\<rparr>, out) = (s', out)"
    using assms by (simp only: processChar_inputBuffer prod.case)
  then have "s'\<lparr>inputBuffer := inputBuffer s\<rparr> = s'" by simp
  then have "inputBuffer (s'\<lparr>inputBuffer := inputBuffer s\<rparr>) = inputBuffer s'" by simp
  then show ?thesis by simp
qed

lemma processChunk_keeps_inputBuffer:
  "processChunk U s chunk = (s', out) \<Longrightarrow> inputBuffer s' = inputBuffer s"
proof (induction chunk arbitrary: s s' out)
  case Nil
  then show ?case by simp
next
  case (Cons c chunk)
  obtain s1 out1 where p: "processChar U s c = (s1, out1)" by (cases "processChar U s c")
  obtain s2 out2 where r: "processChunk U s1 chunk = (s2, out2)"
    by (cases "processChunk U s1 chunk")
  have "s' = s2" using Cons.prems p r by simp
  then show ?case using Cons.IH [OF r] processChar_keeps_inputBuffer [OF p] by simp
qed

lemma streamLoop_concat:
  "streamLoop U s queue =
     (case processChunk U s (concat queue) of
        (s', out) \<Rightarrow> (if queue = [] then s' else s'\<lparr>inputBuffer := []\<rparr>, out))"
proof (induction queue arbitrary: s)
  case Nil
  show ?case by simp
next
  case (Cons chunk queue)
  obtain s1 out1 where p: "processChunk U s chunk = (s1, out1)"
    by (cases "processChunk U s chunk")
  obtain s2 out2 where r: "processChunk U s1 (concat queue) = (s2, out2)"
    by (cases "processChunk U s1 (concat queue)")
  have a: "processChunk U (s\<lparr>inputBuffer := queue\<rparr>) chunk = (s1\<lparr>inputBuffer := queue\<rparr>, out1)"
    by (simp add: processChunk_inputBuffer p)
  have b: "processChunk U (s1\<lparr>inputBuffer := queue\<rparr>) (concat queue)
             = (s2\<lparr>inputBuffer := queue\<rparr>, out2)"
    by (simp add: processChunk_inputBuffer r)
  have q: "queue = [] \<Longrightarrow> s2 = s1"
    using r by simp
  have i: "inputBuffer s2 = inputBuffer s1" using r by (rule processChunk_keeps_inputBuffer)
  have "streamLoop U s (chunk # queue)
          = (if queue = [] then s2\<lparr>inputBuffer := queue\<rparr> else s2\<lparr>inputBuffer := []\<rparr>, out1 @ out2)"
    by (simp add: a Cons.IH b)
  also have "\<dots> = (s2\<lparr>inputBuffer := []\<rparr>, out1 @ out2)" by simp
  finally show ?case by (simp add: processChunk_append p r)
qed

lemma Stream_Add_fresh:
  assumes "inputBuffer s = []"
  shows "Stream U (Add s chunk) = processChunk U s chunk"
proof -
  obtain s1 out1 where p: "processChunk U s chunk = (s1, out1)"
    by (cases "processChunk U s chunk")
  have i: "inputBuffer s1 = []" using processChunk_keeps_inputBuffer [OF p] assms by simp
  have "Add s chunk = s\<lparr>inputBuffer := [chunk]\<rparr>" using assms by (simp add: Add_def)
  then have "Stream U (Add s chunk) = streamLoop U (s\<lparr>inputBuffer := [chunk]\<rparr>) [chunk]"
    by (simp add: Stream_def)
  also have "\<dots> = (s1\<lparr>inputBuffer := []\<rparr>, out1)"
    by (simp add: streamLoop_concat processChunk_inputBuffer p)
  also have "s1\<lparr>inputBuffer := []\<rparr> = s1" using i by simp
  finally show ?thesis using p by simp
qed

lemma generateLoop_concat:
  assumes "inputBuffer s = []"
  shows "generateLoop U s chunks =
           (case processChunk U s (concat chunks) of (s', out) \<Rightarrow> out @ Flush U s')"
  using assms
proof (induction chunks arbitrary: s)
  case Nil
  show ?case by simp
next
  case (Cons chunk chunks)
  obtain s1 out1 where p: "processChunk U s chunk = (s1, out1)"
    by (cases "processChunk U s chunk")
  have i: "inputBuffer s1 = []" using processChunk_keeps_inputBuffer [OF p] Cons.prems by simp
  obtain s2 out2 where r: "processChunk U s1 (concat chunks) = (s2, out2)"
    by (cases "processChunk U s1 (concat chunks)")
  show ?case
    by (simp add: Stream_Add_fresh [OF Cons.prems] p Cons.IH [OF i] r processChunk_append)
qed

lemma GenerateSentences_concat:
  "GenerateSentences U chunks config =
     (case processChunk U (NewSentenceSplitter config) (concat chunks) of
        (s', out) \<Rightarrow> out @ Flush U s')"
  unfolding GenerateSentences_def
  by (rule generateLoop_concat) (simp add: NewSentenceSplitter_def)

lemma Stream_Add_concat:
  "Stream U (Add s chunk) =
     (case processChunk U s (concat (inputBuffer s) @ chunk) of
        (s', out) \<Rightarrow> (s'\<lparr>inputBuffer := []\<rparr>, out))"
proof -
  obtain s1 out1 where p: "processChunk U s (concat (inputBuffer s) @ chunk) = (s1, out1)"
    by (cases "processChunk U s (concat (inputBuffer s) @ chunk)")
  have "Stream U (Add s chunk)
          = streamLoop U (s\<lparr>inputBuffer := inputBuffer s @ [chunk]\<rparr>) (inputBuffer s @ [chunk])"
    by (simp add: Stream_def Add_def)
  also have "\<dots> = (s1\<lparr>inputBuffer := []\<rparr>, out1)"
    by (simp add: streamLoop_concat processChunk_inputBuffer p)
  finally show ?thesis using p by simp
qed

lemma filter_nul_concat:
  "filter (\<lambda>c. c \<noteq> 0) (concat (map (filter (\<lambda>c. c \<noteq> (0::int))) chunks))
     = filter (\<lambda>c. c \<noteq> 0) (concat chunks)"
  by (induction chunks) simp_all

lemma Stream_nul:
  "Stream U (Add s chunk) = Stream U (Add s (filter (\<lambda>c. c \<noteq> 0) chunk))"
proof -
  have "processChunk U s (concat (inputBuffer s) @ chunk)
          = processChunk U s (concat (inputBuffer s) @ filter (\<lambda>c. c \<noteq> 0) chunk)"
    by (subst processChunk_filter_nul, subst (2) processChunk_filter_nul) simp
  then show ?thesis by (simp only: Stream_Add_concat)
qed

lemma GenerateSentences_nul:
  "GenerateSentences U chunks config
     = GenerateSentences U (map (filter (\<lambda>c. c \<noteq> 0)) chunks) config"
proof -
  have "processChunk U (NewSentenceSplitter config) (concat chunks)
      = processChunk U (NewSentenceSplitter config)
          (concat (map (filter (\<lambda>c. c \<noteq> 0)) chunks))"
    by (subst processChunk_filter_nul, subst (2) processChunk_filter_nul)
       (simp only: filter_nul_concat)
  then show ?thesis by (simp only: GenerateSentences_concat)
qed



























lemma set_TrimSpace: "set (TrimSpace x) \<subseteq> set x"
proof -
  have "set (TrimSpace x) = set (dropWhile IsSpace (rev (dropWhile IsSpace x)))"
    by (simp add: TrimSpace_def)
  also have "\<dots> \<subseteq> set (rev (dropWhile IsSpace x))" by (rule set_dropWhileD [THEN subsetI])
  also have "\<dots> \<subseteq> set x" by (auto dest: set_dropWhileD)
  finally show ?thesis .
qed

lemma nul_TrimSpace: "0 \<notin> set x \<Longrightarrow> 0 \<notin> set (TrimSpace x)"
  using set_TrimSpace [of x] by auto

lemma nul_TrimLeft: "0 \<notin> set x \<Longrightarrow> 0 \<notin> set (TrimLeft x)"
  by (auto simp: TrimLeft_def dest: set_dropWhileD)

lemma tokenizeLoop_nul:
  "0 \<notin> set cur \<Longrightarrow> 0 \<notin> set rest \<Longrightarrow> \<forall>x\<in>set sents. 0 \<notin> set x \<Longrightarrow>
   \<forall>x\<in>set (tokenizeLoop U runes ds i rest cur sents). 0 \<notin> set x"
proof (induction rest arbitrary: i cur sents)
  case Nil
  then show ?case by (auto dest: nul_TrimSpace)
next
  case (Cons r rest)
  have c: "0 \<notin> set (cur @ [r])" using Cons.prems by simp
  have t: "0 \<notin> set (TrimSpace (cur @ [r]))" using c by (rule nul_TrimSpace)
  have r: "0 \<notin> set rest" using Cons.prems by simp
  show ?case
  proof (cases "r \<in> set ds \<and> isEndOfSentence U runes i")
    case False
    then have "tokenizeLoop U runes ds i (r # rest) cur sents
                 = tokenizeLoop U runes ds (i + 1) rest (cur @ [r]) sents" by auto
    then show ?thesis using Cons.IH [OF c r Cons.prems(3)] by simp
  next
    case True
    let ?s = "if TrimSpace (cur @ [r]) \<noteq> [] then sents @ [TrimSpace (cur @ [r])] else sents"
    have s: "\<forall>x\<in>set ?s. 0 \<notin> set x" using Cons.prems(3) t by auto
    have e: "0 \<notin> set ([]::gostring)" by simp
    have "tokenizeLoop U runes ds i (r # rest) cur sents
                 = tokenizeLoop U runes ds (i + 1) rest [] ?s" using True by simp
    then show ?thesis using Cons.IH [OF e r s] by simp
  qed
qed

lemma Tokenize_nul:
  "0 \<notin> set t \<Longrightarrow> \<forall>x\<in>set (TokenizeSentencesWithDelimiters U t ds). 0 \<notin> set x"
  using tokenizeLoop_nul [of "[]" t "[]" U t ds 0]
  by (simp add: TokenizeSentencesWithDelimiters_def)

lemma combineLoop_nul:
  "\<forall>x\<in>set sents. 0 \<notin> set x \<Longrightarrow> \<forall>x\<in>set combined. 0 \<notin> set x \<Longrightarrow> 0 \<notin> set temp \<Longrightarrow>
   \<forall>x\<in>set (combineLoop L sents combined temp). 0 \<notin> set x"
proof (induction sents arbitrary: combined temp)
  case Nil
  then show ?case by (auto dest: nul_TrimSpace)
next
  case (Cons x rest)
  have x: "0 \<notin> set x" and r: "\<forall>x\<in>set rest. 0 \<notin> set x" using Cons.prems(1) by simp_all
  have a: "0 \<notin> set (temp @ x @ [32])" using x Cons.prems(3) by simp
  have b: "\<forall>y\<in>set (combined @ [TrimSpace (temp @ x)]). 0 \<notin> set y"
    using Cons.prems(2,3) x nul_TrimSpace [of "temp @ x"] by auto
  have c: "\<forall>y\<in>set (combined @ [TrimSpace x]). 0 \<notin> set y"
    using Cons.prems(2) x nul_TrimSpace [of x] by auto
  have e: "0 \<notin> set ([]::gostring)" by simp
  show ?case
    using Cons.IH [OF r Cons.prems(2) a] Cons.IH [OF r b e] Cons.IH [OF r c e]
    by simp
qed

lemma windowSentences_nul:
  assumes "0 \<notin> set (buffer s)"
  shows "\<forall>x\<in>set (windowSentences U s). 0 \<notin> set x"
proof -
  let ?t = "TokenizeSentencesWithDelimiters U (buffer s) (sentenceFragmentDelimiters s)"
  have t: "\<forall>x\<in>set ?t. 0 \<notin> set x" using assms by (rule Tokenize_nul)
  have "\<forall>x\<in>set (combineLoop (minimumSentenceLength s) ?t [] []). 0 \<notin> set x"
    using t by (rule combineLoop_nul) simp_all
  then show ?thesis using t by (simp add: windowSentences_def combineSentences_def)
qed

lemma splitLoop_nul:
  "0 \<notin> set s \<Longrightarrow> 0 \<notin> set cur \<Longrightarrow> \<forall>w\<in>set (splitLoop s sep cur). 0 \<notin> set w"
proof (induction s arbitrary: cur)
  case Nil
  then show ?case by simp
next
  case (Cons c s)
  have s: "0 \<notin> set s" and c: "c \<noteq> 0" using Cons.prems(1) by auto
  show ?case
  proof (cases "c = sep")
    case True
    have "\<forall>w\<in>set (splitLoop s sep []). 0 \<notin> set w" using s by (rule Cons.IH) simp
    then show ?thesis using True Cons.prems(2) by simp
  next
    case False
    have "0 \<notin> set (cur @ [c])" using c Cons.prems(2) by simp
    with s have "\<forall>w\<in>set (splitLoop s sep (cur @ [c])). 0 \<notin> set w" by (rule Cons.IH)
    then show ?thesis using False by simp
  qed
qed

lemma Split_nul: "0 \<notin> set s \<Longrightarrow> \<forall>w\<in>set (Split s sep). 0 \<notin> set w"
  unfolding Split_def by (rule splitLoop_nul) simp_all

lemma Join_nul:
  "\<forall>w\<in>set ws. 0 \<notin> set w \<Longrightarrow> 0 \<notin> set sep \<Longrightarrow> 0 \<notin> set (Join ws sep)"
  by (induction ws sep rule: Join.induct) auto

lemma normalizeLoop_nul:
  "\<forall>w\<in>set lines. 0 \<notin> set w \<Longrightarrow> \<forall>w\<in>set result. 0 \<notin> set w \<Longrightarrow>
   \<forall>w\<in>set (normalizeLoop lines n result). 0 \<notin> set w"
proof (induction lines arbitrary: n result)
  case Nil
  then show ?case by simp
next
  case (Cons line rest)
  have r: "\<forall>w\<in>set rest. 0 \<notin> set w" using Cons.prems(1) by simp
  have a: "\<forall>w\<in>set (result @ [line]). 0 \<notin> set w" using Cons.prems by simp
  show ?case
    using Cons.IH [OF r Cons.prems(2)] Cons.IH [OF r a] by simp
qed

lemma stripTableLoop_nul:
  "\<forall>w\<in>set lines. 0 \<notin> set w \<Longrightarrow> \<forall>w\<in>set cleaned. 0 \<notin> set w \<Longrightarrow>
   \<forall>w\<in>set (stripTableLoop lines cleaned). 0 \<notin> set w"
proof (induction lines arbitrary: cleaned)
  case Nil
  then show ?case by simp
next
  case (Cons line rest)
  have r: "\<forall>w\<in>set rest. 0 \<notin> set w" using Cons.prems(1) by simp
  have a: "\<forall>w\<in>set (cleaned @ [line]). 0 \<notin> set w" using Cons.prems by simp
  have b: "\<forall>w\<in>set (cleaned @ [[]]). 0 \<notin> set w" using Cons.prems by simp
  show ?case
    using Cons.IH [OF r Cons.prems(2)] Cons.IH [OF r a] Cons.IH [OF r b] by simp
qed

lemma normalizeNewlines_nul: "0 \<notin> set t \<Longrightarrow> 0 \<notin> set (normalizeNewlines t)"
  unfolding normalizeNewlines_def
  by (intro Join_nul normalizeLoop_nul Split_nul) simp_all

lemma stripTableStructures_nul: "0 \<notin> set t \<Longrightarrow> 0 \<notin> set (stripTableStructures t)"
  unfolding stripTableStructures_def
  by (intro normalizeNewlines_nul Join_nul stripTableLoop_nul Split_nul) simp_all

lemma stripHTTPURLs_nul: "0 \<notin> set t \<Longrightarrow> 0 \<notin> set (stripHTTPURLs t)"
proof -
  assume "0 \<notin> set t"
  then have "\<forall>w\<in>set (Split t 32). 0 \<notin> set w" by (rule Split_nul)
  then have "\<forall>w\<in>set (filter (\<lambda>word. \<not> HasPrefix word (str ''http://'')
                \<and> \<not> HasPrefix word (str ''https://'')) (Split t 32)). 0 \<notin> set w"
    by simp
  then show ?thesis unfolding stripHTTPURLs_def by (rule Join_nul) simp
qed

lemma stripEmojis_nul: "0 \<notin> set t \<Longrightarrow> 0 \<notin> set (stripEmojis t)"
  by (simp add: stripEmojis_def)

lemma CleanText_nul:
  assumes "0 \<notin> set t"
  shows "0 \<notin> set (CleanText t f)"
proof -
  let ?r1 = "if HasFlag f CleanupTable then stripTableStructures t else t"
  let ?r2 = "if HasFlag f CleanupLinks then stripHTTPURLs ?r1 else ?r1"
  let ?r3 = "if HasFlag f CleanupEmojis then stripEmojis ?r2 else ?r2"
  have 1: "0 \<notin> set ?r1" using assms by (simp add: stripTableStructures_nul)
  then have 2: "0 \<notin> set ?r2" by (simp add: stripHTTPURLs_nul)
  then have 3: "0 \<notin> set ?r3" by (simp add: stripEmojis_nul)
  then have "0 \<notin> set (if HasFlag f StripText then TrimSpace ?r3 else ?r3)"
    by (simp add: nul_TrimSpace)
  then show ?thesis by (simp add: CleanText_def Let_def)
qed

lemma windowStep_nul:
  assumes "windowStep U s c = (s', out)" and "0 \<notin> set (buffer s)"
  shows "0 \<notin> set (buffer s') \<and> (\<forall>e\<in>set out. 0 \<notin> set (snd e))"
proof (cases "windowEmits U s c")
  case False
  then have "s' = markDelimiter s c" "out = []" using assms(1) by (simp_all add: windowStep_unfold)
  then show ?thesis using assms(2) by (simp add: markDelimiter_fields)
next
  case True
  let ?xs = "windowSentences U s"
  have ne: "?xs \<noteq> []" using windowEmits_length [OF True] by auto
  have o: "out = map (\<lambda>x. (WindowSend, CleanText x (cleanupOptions s))) (butlast ?xs)"
    and b: "buffer s' = last ?xs @ (if HasSuffix (buffer s) [32] then [32] else [])"
    using assms(1) True by (auto simp: windowStep_unfold)
  have x: "\<forall>x\<in>set ?xs. 0 \<notin> set x" using assms(2) by (rule windowSentences_nul)
  have "last ?xs \<in> set ?xs" using ne by simp
  then have "0 \<notin> set (last ?xs)" using x by blast
  then have 1: "0 \<notin> set (buffer s')" unfolding b by simp
  have "\<forall>y\<in>set (butlast ?xs). 0 \<notin> set y" using x by (auto dest: in_set_butlastD)
  then have 2: "\<forall>e\<in>set out. 0 \<notin> set (snd e)"
    unfolding o using CleanText_nul by fastforce
  show ?thesis using 1 2 by simp
qed

lemma processChar_nul_free:
  assumes "processChar U s c = (s', out)" and "0 \<notin> set (buffer s)"
  shows "0 \<notin> set (buffer s') \<and> (\<forall>e\<in>set out. 0 \<notin> set (snd e))"
proof (cases "c = 0")
  case True
  then show ?thesis using assms by (simp add: processChar_nul)
next
  case nz: False
  have t: "0 \<notin> set (TrimLeft (buffer s @ [c]))"
    using nz assms(2) by (intro nul_TrimLeft) simp
  then have a: "0 \<notin> set (buffer (appendChar s c))" by (simp add: appendChar_fields)
  show ?thesis
  proof (cases "quickYields s c")
    case True
    then have "s' = (appendChar s c)\<lparr>buffer := [], wordCount := 0, isFirstSentence := False\<rparr>"
      "out = [(QuickYieldSend, CleanText (TrimLeft (buffer s @ [c])) (cleanupOptions s))]"
      using assms(1) nz by (simp_all add: processChar_steps)
    then show ?thesis using t by (simp add: CleanText_nul)
  next
    case nq: False
    show ?thesis
    proof (cases "belowWindow s c")
      case True
      then have "s' = appendChar s c" "out = []"
        using assms(1) nz nq by (simp_all add: processChar_steps)
      then show ?thesis using a by simp
    next
      case False
      then have "windowStep U (appendChar s c) c = (s', out)"
        using assms(1) nz nq by (simp add: processChar_steps)
      then show ?thesis using a by (rule windowStep_nul)
    qed
  qed
qed

lemma processChunk_nul_free:
  "processChunk U s chunk = (s', out) \<Longrightarrow> 0 \<notin> set (buffer s) \<Longrightarrow>
   0 \<notin> set (buffer s') \<and> (\<forall>e\<in>set out. 0 \<notin> set (snd e))"
proof (induction chunk arbitrary: s s' out)
  case Nil
  then show ?case by simp
next
  case (Cons c chunk)
  obtain s1 out1 where p: "processChar U s c = (s1, out1)" by (cases "processChar U s c")
  obtain s2 out2 where q: "processChunk U s1 chunk = (s2, out2)"
    by (cases "processChunk U s1 chunk")
  have r: "s' = s2" "out = out1 @ out2" using Cons.prems(1) p q by simp_all
  note a = processChar_nul_free [OF p Cons.prems(2)]
  then have "0 \<notin> set (buffer s1)" by simp
  with q have "0 \<notin> set (buffer s2) \<and> (\<forall>e\<in>set out2. 0 \<notin> set (snd e))" by (rule Cons.IH)
  then show ?case using a r by auto
qed

lemma flushLoop_nul_free:
  "\<forall>x\<in>set sents. 0 \<notin> set x \<Longrightarrow> 0 \<notin> set buf \<Longrightarrow>
   \<forall>e\<in>set (flushLoop s sents buf). 0 \<notin> set (snd e)"
proof (induction sents arbitrary: buf)
  case Nil
  then show ?case by (simp add: CleanText_nul)
next
  case (Cons x rest)
  have x: "0 \<notin> set x" and r: "\<forall>x\<in>set rest. 0 \<notin> set x" using Cons.prems(1) by simp_all
  have a: "0 \<notin> set (buf @ x @ [32])" and b: "0 \<notin> set (buf @ x)" using x Cons.prems(2) by simp_all
  have e: "0 \<notin> set ([]::gostring)" by simp
  show ?case
    using Cons.IH [OF r a] Cons.IH [OF r e] CleanText_nul [OF b] by simp
qed

lemma Flush_nul_free:
  assumes "0 \<notin> set (buffer s)"
  shows "\<forall>e\<in>set (Flush U s). 0 \<notin> set (snd e)"
proof -
  have "\<forall>e\<in>set (flushLoop s
          (TokenizeSentencesWithDelimiters U (buffer s) (sentenceFragmentDelimiters s)) []).
        0 \<notin> set (snd e)"
    using assms by (intro flushLoop_nul_free Tokenize_nul) simp_all
  then show ?thesis by (simp add: Flush_def)
qed

lemma GenerateSentences_nul_free:
  "\<forall>e\<in>set (GenerateSentences U chunks config). 0 \<notin> set (snd e)"
proof -
  let ?s0 = "NewSentenceSplitter config"
  obtain s1 out1 where p: "processChunk U ?s0 (concat chunks) = (s1, out1)"
    by (cases "processChunk U ?s0 (concat chunks)")
  have "0 \<notin> set (buffer ?s0)" by (simp add: NewSentenceSplitter_def)
  with p have a: "0 \<notin> set (buffer s1) \<and> (\<forall>e\<in>set out1. 0 \<notin> set (snd e))"
    by (rule processChunk_nul_free)
  then have "\<forall>e\<in>set (Flush U s1). 0 \<notin> set (snd e)" by (intro Flush_nul_free) simp
  then show ?thesis using a by (auto simp: GenerateSentences_concat p)
qed

section \<open>Claims\<close>

text \<open>
  C1. With the default configuration, the input
  \<^verbatim>\<open>This is a sentence. And here's another! Yet, there's more. This ends now.\<close>
  passed to \<^verbatim>\<open>Add\<close>, followed by draining \<^verbatim>\<open>Stream\<close> and then \<^verbatim>\<open>Flush\<close>, puts exactly four
  strings on the channels, in this order: \<^verbatim>\<open>This is a sentence.\<close>, \<^verbatim>\<open>And here's another!\<close>,
  \<^verbatim>\<open>Yet, there's more.\<close>, \<^verbatim>\<open>This ends now.\<close> This holds whatever the Unicode tables say
  beyond Latin-1.
\<close>

theorem default_config_example:
  "sent (case Stream U (Add (NewSentenceSplitter DefaultConfig)
            (str ''This is a sentence. And here's another! Yet, there's more. This ends now.''))
         of (s, out) \<Rightarrow> out @ Flush U s)
   = map str [''This is a sentence.'', ''And here's another!'', ''Yet, there's more.'',
              ''This ends now.'']"
  by code_simp









text \<open>
  C5. Tokenizing \<^verbatim>\<open>Dr. Smith went to U.S.A. He met Mr. Johnson.\<close> with the default fragment
  delimiters does not keep \<^verbatim>\<open>U.S.A.\<close> together: the periods of \<^verbatim>\<open>Dr.\<close> and \<^verbatim>\<open>Mr.\<close> are
  suppressed by the abbreviation table, but \<^verbatim>\<open>U\<close>, \<^verbatim>\<open>S\<close> and \<^verbatim>\<open>A\<close> are not in the table and
  each is followed by an uppercase letter, so a span ends after each of them. The whole
  pipeline under the default configuration then emits \<^verbatim>\<open>Dr. Smith went to U.\<close> first, which
  does not contain \<^verbatim>\<open>U.S.A.\<close> as \<^verbatim>\<open>TestTokenizerWithAbbreviations\<close> requires.
\<close>

theorem abbreviation_example_splits:
  "TokenizeSentencesWithDelimiters U (str ''Dr. Smith went to U.S.A. He met Mr. Johnson.'')
       (SentenceFragmentDelimiters DefaultConfig)
     = map str [''Dr. Smith went to U.'', ''S.'', ''A.'', ''He met Mr. Johnson.'']
   \<and> sent (GenerateSentencesFromString U (str ''Dr. Smith went to U.S.A. He met Mr. Johnson.'')
            DefaultConfig)
     = map str [''Dr. Smith went to U.'', ''S. A. He met Mr. Johnson.'']"
  by code_simp

text \<open>
  C3 (as stated). A text without any fragment delimiter does not always give exactly one span:
  for a text of white space only, and for the empty text, \<^verbatim>\<open>TokenizeSentencesWithDelimiters\<close>
  returns no span at all.
\<close>

theorem tokenize_blank_counterexample:
  "set (str ''  '') \<inter> set (SentenceFragmentDelimiters DefaultConfig) = {}
   \<and> TokenizeSentencesWithDelimiters latin1Tables (str ''  '')
         (SentenceFragmentDelimiters DefaultConfig) = []
   \<and> TokenizeSentencesWithDelimiters latin1Tables [] [] = []"
  by code_simp

text \<open>
  C3 (amended). For every text that contains no character of the delimiter string (in
  particular when the delimiter string is empty), \<^verbatim>\<open>TokenizeSentencesWithDelimiters\<close> returns
  exactly one span, the white-space-trimmed text, when the trimmed text is not empty, and no
  span when it is empty.
\<close>

theorem tokenize_without_delimiters:
  assumes "set text \<inter> set delimiters = {}"
  shows "TokenizeSentencesWithDelimiters U text delimiters =
           (if TrimSpace text = [] then [] else [TrimSpace text])"
  using assms
  by (auto simp: TokenizeSentencesWithDelimiters_def tokenizeLoop_no_delimiter TrimSpace_def)

theorem tokenize_without_delimiters_witness:
  "set (str '' hello world '') \<inter> set (str ''.,'') = {}
   \<and> TokenizeSentencesWithDelimiters latin1Tables (str '' hello world '') (str ''.,'')
       = [str ''hello world'']"
proof -
  have d: "set (str '' hello world '') \<inter> set (str ''.,'') = {}" by code_simp
  have t: "TrimSpace (str '' hello world '') = str ''hello world''" by code_simp
  have n: "str ''hello world'' \<noteq> []" by code_simp
  from tokenize_without_delimiters [OF d, of latin1Tables] t n d show ?thesis by simp
qed

text \<open>
  C4. At every position that holds \<^verbatim>\<open>.\<close> or \<^verbatim>\<open>,\<close> with a digit (\<^verbatim>\<open>unicode.IsDigit\<close>) immediately
  before and immediately after it, \<^verbatim>\<open>isEndOfSentence\<close> answers false, so the tokenizer's loop
  keeps the character in the span it is accumulating and closes no span there. In
  particular \<^verbatim>\<open>The price is $12.50 per item. Total came to 1,234.56 dollars.\<close> is split, with the
  default fragment delimiters, into two spans that end after \<^verbatim>\<open>item.\<close> and \<^verbatim>\<open>dollars.\<close>
\<close>

theorem digits_around_no_boundary:
  assumes "0 < pos" and "pos + 1 < length runes"
    and "runes ! pos = 0x2E \<or> runes ! pos = 0x2C"
    and "IsDigit U (runes ! (pos - 1))" and "IsDigit U (runes ! (pos + 1))"
  shows "\<not> isEndOfSentence U runes pos
     \<and> tokenizeLoop U runes ds pos (runes ! pos # rest) cur sents
         = tokenizeLoop U runes ds (pos + 1) rest (cur @ [runes ! pos]) sents
     \<and> TokenizeSentencesWithDelimiters U
           (str ''The price is $12.50 per item. Total came to 1,234.56 dollars.'')
           (SentenceFragmentDelimiters DefaultConfig)
         = map str [''The price is $12.50 per item.'', ''Total came to 1,234.56 dollars.'']"
proof -
  have "\<not> isEndOfSentence U runes pos"
    using assms by (auto simp: isEndOfSentence_def Let_def)
  moreover have "TokenizeSentencesWithDelimiters U
           (str ''The price is $12.50 per item. Total came to 1,234.56 dollars.'')
           (SentenceFragmentDelimiters DefaultConfig)
         = map str [''The price is $12.50 per item.'', ''Total came to 1,234.56 dollars.'']"
    by code_simp
  ultimately show ?thesis by simp
qed

theorem digits_around_no_boundary_witness:
  "0 < (1::nat) \<and> 1 + 1 < length (str ''1,234.56'')
   \<and> str ''1,234.56'' ! 1 = 0x2C
   \<and> IsDigit latin1Tables (str ''1,234.56'' ! (1 - 1))
   \<and> IsDigit latin1Tables (str ''1,234.56'' ! (1 + 1))
   \<and> \<not> isEndOfSentence latin1Tables (str ''1,234.56'') 1
   \<and> str ''1,234.56'' ! 5 = 0x2E
   \<and> \<not> isEndOfSentence latin1Tables (str ''1,234.56'') 5"
proof -
  have c: "0 < (1::nat)" "1 + 1 < length (str ''1,234.56'')"
    "str ''1,234.56'' ! 1 = 0x2E \<or> str ''1,234.56'' ! 1 = 0x2C"
    "IsDigit latin1Tables (str ''1,234.56'' ! (1 - 1))"
    "IsDigit latin1Tables (str ''1,234.56'' ! (1 + 1))"
    by code_simp+
  have p: "0 < (5::nat)" "5 + 1 < length (str ''1,234.56'')"
    "str ''1,234.56'' ! 5 = 0x2E \<or> str ''1,234.56'' ! 5 = 0x2C"
    "IsDigit latin1Tables (str ''1,234.56'' ! (5 - 1))"
    "IsDigit latin1Tables (str ''1,234.56'' ! (5 + 1))"
    by code_simp+
  have e: "str ''1,234.56'' ! 1 = 0x2C" "str ''1,234.56'' ! 5 = 0x2E" by code_simp+
  from digits_around_no_boundary [OF c] have "\<not> isEndOfSentence latin1Tables (str ''1,234.56'') 1"
    by blast
  moreover from digits_around_no_boundary [OF p]
  have "\<not> isEndOfSentence latin1Tables (str ''1,234.56'') 5" by blast
  ultimately show ?thesis using c e by blast
qed

text \<open>
  C7. At a \<^verbatim>\<open>.\<close> where the table rule, the decimal rule and the abbreviation rule do not apply,
  the decision of \<^verbatim>\<open>isEndOfSentence\<close> is determined by the first character after the period
  that is not white space: a boundary when there is none, a boundary when it is uppercase,
  no boundary when it is lowercase, and a boundary for anything else.
\<close>

theorem period_decided_by_next_nonspace:
  assumes "pos < length runes" and "runes ! pos = 0x2E"
    and "\<not> isInsideTableCell runes pos"
    and "\<not> (0 < pos \<and> pos + 1 < length runes
            \<and> IsDigit U (runes ! (pos - 1)) \<and> IsDigit U (runes ! (pos + 1)))"
    and "\<not> (0 < pos \<and> isAbbreviation U runes pos)"
  shows "isEndOfSentence U runes pos =
     (case dropWhile IsSpace (drop (pos + 1) runes) of
        [] \<Rightarrow> True
      | next # _ \<Rightarrow> if IsUpper U next then True else if IsLower U next then False else True)"
proof (cases "dropWhile IsSpace (drop (pos + 1) runes)")
  case Nil
  have "findNextNonSpace runes (pos + 1) = None"
    by (subst findNextNonSpace_char) (simp only: Nil if_True simp_thms)
  then have "isEndOfSentence U runes pos = True"
    by (simp only: period_rule [OF assms(2-5)] if_True simp_thms)
  moreover have "(case dropWhile IsSpace (drop (pos + 1) runes) of
        [] \<Rightarrow> True
      | next # _ \<Rightarrow> if IsUpper U next then True else if IsLower U next then False else True)
      = True"
    by (simp only: Nil list.case)
  ultimately show ?thesis by (rule trans [OF _ sym])
next
  case (Cons nxt rest)
  then have ne: "dropWhile IsSpace (drop (pos + 1) runes) \<noteq> []" by simp
  have n: "runes ! (pos + 1 + length (takeWhile IsSpace (drop (pos + 1) runes))) = nxt"
    using nth_first_nonspace [OF ne] Cons by simp
  have f: "findNextNonSpace runes (pos + 1)
             = Some (pos + 1 + length (takeWhile IsSpace (drop (pos + 1) runes)))"
    by (subst findNextNonSpace_char) (simp only: ne if_False simp_thms)
  have "isEndOfSentence U runes pos =
          (if IsUpper U nxt then True else if IsLower U nxt then False else True)"
    by (simp only: period_rule [OF assms(2-5)] f option.sel n option.distinct if_False simp_thms)
  moreover have "(case dropWhile IsSpace (drop (pos + 1) runes) of
        [] \<Rightarrow> True
      | next # _ \<Rightarrow> if IsUpper U next then True else if IsLower U next then False else True)
      = (if IsUpper U nxt then True else if IsLower U nxt then False else True)"
    by (simp only: Cons list.case)
  ultimately show ?thesis by (rule trans [OF _ sym])
qed

theorem period_decided_by_next_nonspace_witness:
  "2 < length (str ''Go.  now'') \<and> str ''Go.  now'' ! 2 = 0x2E
   \<and> \<not> isInsideTableCell (str ''Go.  now'') 2
   \<and> \<not> (0 < (2::nat) \<and> 2 + 1 < length (str ''Go.  now'')
          \<and> IsDigit latin1Tables (str ''Go.  now'' ! (2 - 1))
          \<and> IsDigit latin1Tables (str ''Go.  now'' ! (2 + 1)))
   \<and> \<not> (0 < (2::nat) \<and> isAbbreviation latin1Tables (str ''Go.  now'') 2)
   \<and> dropWhile IsSpace (drop (2 + 1) (str ''Go.  now'')) = str ''now''
   \<and> isEndOfSentence latin1Tables (str ''Go.  now'') 2 = False"
proof -
  have h: "2 < length (str ''Go.  now'')" "str ''Go.  now'' ! 2 = 0x2E"
    "\<not> isInsideTableCell (str ''Go.  now'') 2"
    "\<not> (0 < (2::nat) \<and> 2 + 1 < length (str ''Go.  now'')
          \<and> IsDigit latin1Tables (str ''Go.  now'' ! (2 - 1))
          \<and> IsDigit latin1Tables (str ''Go.  now'' ! (2 + 1)))"
    "\<not> (0 < (2::nat) \<and> isAbbreviation latin1Tables (str ''Go.  now'') 2)"
    by code_simp+
  have d: "dropWhile IsSpace (drop (2 + 1) (str ''Go.  now'')) = str ''now''" by code_simp
  have v: "(case dropWhile IsSpace (drop (2 + 1) (str ''Go.  now'')) of
        [] \<Rightarrow> True
      | next # _ \<Rightarrow> if IsUpper latin1Tables next then True
                   else if IsLower latin1Tables next then False else True) = False"
    by code_simp
  from period_decided_by_next_nonspace [OF h] v
  have "isEndOfSentence latin1Tables (str ''Go.  now'') 2 = False" by (rule trans)
  with h d show ?thesis by blast
qed

text \<open>
  C6 (as stated). A line with two tab characters is classified as a table row by
  \<^verbatim>\<open>detectTableLine\<close>, and the period of the row below has a tab before it and after it on its
  line, yet \<^verbatim>\<open>isEndOfSentence\<close> answers true there and the tokenizer splits the row:
  \<^verbatim>\<open>isInsideTableCell\<close> counts pipe characters only.
\<close>

theorem tab_row_counterexample:
  "(let runes = str ''a'' @ [9] @ str ''b. C'' @ [9] @ str ''d'' in
      10 \<notin> set runes
      \<and> detectTableLine runes
      \<and> runes ! 3 = 0x2E
      \<and> 9 \<in> set (take 3 runes)
      \<and> 9 \<in> set (drop 4 runes)
      \<and> isEndOfSentence latin1Tables runes 3
      \<and> TokenizeSentencesWithDelimiters latin1Tables runes
            (SentenceFragmentDelimiters DefaultConfig)
          = [str ''a'' @ [9] @ str ''b.'', str ''C'' @ [9] @ str ''d''])"
  by code_simp

text \<open>
  C6 (amended). Let the line of a position be the stretch between the nearest newlines
  around it: it starts at \<open>a\<close> (the start of the text or just after a newline), ends at \<open>b\<close>
  (the end of the text or just before a newline) and holds no newline before or after the
  position. If the line has a pipe character before the position and a pipe character after
  it, then the line is classified as a table row (it has at least two pipes), and
  \<^verbatim>\<open>isEndOfSentence\<close> answers false at the position, whatever character stands there: the
  tokenizer's loop closes no span there. Tabs and the other table characters around the
  position do not have this effect.
\<close>

theorem pipes_around_no_boundary:
  assumes "a \<le> pos" and "pos \<le> b" and "b < length runes"
    and "a = 0 \<or> runes ! (a - 1) = 10"
    and "10 \<notin> set (take (pos - a) (drop a runes))"
    and "b + 1 = length runes \<or> runes ! (b + 1) = 10"
    and "10 \<notin> set (take (b - pos) (drop (pos + 1) runes))"
    and "0x7C \<in> set (take (pos - a) (drop a runes))"
    and "0x7C \<in> set (take (b - pos) (drop (pos + 1) runes))"
  shows "detectTableLine (take (b + 1 - a) (drop a runes))
     \<and> \<not> isEndOfSentence U runes pos
     \<and> tokenizeLoop U runes ds pos (runes ! pos # rest) cur sents
         = tokenizeLoop U runes ds (pos + 1) rest (cur @ [runes ! pos]) sents"
proof -
  note t = isInsideTableCell_pipes [OF assms]
  have "\<not> isEndOfSentence U runes pos"
    using t(4) by (simp add: isEndOfSentence_def Let_def)
  then show ?thesis using t(3) by simp
qed

theorem pipes_around_no_boundary_witness:
  "(6::nat) \<le> 9 \<and> (9::nat) \<le> 13
   \<and> 13 < length (str ''Intro'' @ [10] @ str ''| a. B |'' @ [10] @ str ''End'')
   \<and> (str ''Intro'' @ [10] @ str ''| a. B |'' @ [10] @ str ''End'') ! (6 - 1) = 10
   \<and> 10 \<notin> set (take (9 - 6) (drop 6 (str ''Intro'' @ [10] @ str ''| a. B |'' @ [10] @ str ''End'')))
   \<and> (str ''Intro'' @ [10] @ str ''| a. B |'' @ [10] @ str ''End'') ! (13 + 1) = 10
   \<and> 10 \<notin> set (take (13 - 9)
               (drop (9 + 1) (str ''Intro'' @ [10] @ str ''| a. B |'' @ [10] @ str ''End'')))
   \<and> 0x7C \<in> set (take (9 - 6) (drop 6 (str ''Intro'' @ [10] @ str ''| a. B |'' @ [10] @ str ''End'')))
   \<and> 0x7C \<in> set (take (13 - 9)
               (drop (9 + 1) (str ''Intro'' @ [10] @ str ''| a. B |'' @ [10] @ str ''End'')))
   \<and> (str ''Intro'' @ [10] @ str ''| a. B |'' @ [10] @ str ''End'') ! 9 = 0x2E
   \<and> \<not> isEndOfSentence latin1Tables
         (str ''Intro'' @ [10] @ str ''| a. B |'' @ [10] @ str ''End'') 9
   \<and> isEndOfSentence latin1Tables (str ''a. B'') 1"
proof -
  let ?r = "str ''Intro'' @ [10] @ str ''| a. B |'' @ [10] @ str ''End''"
  have h: "(6::nat) \<le> 9" "(9::nat) \<le> 13" "13 < length ?r"
    "(6::nat) = 0 \<or> ?r ! (6 - 1) = 10"
    "10 \<notin> set (take (9 - 6) (drop 6 ?r))"
    "13 + 1 = length ?r \<or> ?r ! (13 + 1) = 10"
    "10 \<notin> set (take (13 - 9) (drop (9 + 1) ?r))"
    "0x7C \<in> set (take (9 - 6) (drop 6 ?r))"
    "0x7C \<in> set (take (13 - 9) (drop (9 + 1) ?r))"
    by code_simp+
  have e: "?r ! (6 - 1) = 10" "?r ! (13 + 1) = 10" "?r ! 9 = 0x2E"
    "isEndOfSentence latin1Tables (str ''a. B'') 1"
    by code_simp+
  from pipes_around_no_boundary [OF h, of latin1Tables]
  have "\<not> isEndOfSentence latin1Tables ?r 9" by blast
  with h e show ?thesis by blast
qed




text \<open>
  C10. A NUL character of a chunk is skipped by \<^verbatim>\<open>Stream\<close> before it reaches the buffer: the
  character loop leaves the splitter as it is and sends nothing. Hence \<^verbatim>\<open>Stream\<close> returns the
  same splitter and sends the same strings as for the chunk with its NUL characters removed
  (the same buffer lengths are compared with the thresholds and the same texts are
  tokenized), the whole pipeline emits what it emits for the input without NUL characters,
  and no emitted string holds a NUL character.
\<close>

theorem nul_characters_discarded:
  "processChar U s 0 = (s, [])
   \<and> Stream U (Add s chunk) = Stream U (Add s (filter (\<lambda>c. c \<noteq> 0) chunk))
   \<and> GenerateSentences U chunks config
       = GenerateSentences U (map (filter (\<lambda>c. c \<noteq> 0)) chunks) config
   \<and> list_all (\<lambda>e. 0 \<notin> set (snd e)) (GenerateSentences U chunks config)"
  using processChar_nul [of U s] Stream_nul [of U s chunk] GenerateSentences_nul [of U chunks config]
    GenerateSentences_nul_free [of U chunks config]
  by (simp add: list_all_iff)

end
